theory Spec2Isabelle
  imports Main "HOL-Library.Sublist"
begin

section \<open>Characters and strings of the Python program\<close>

text \<open>
  The program works on Python \<open>str\<close> values. A string is modelled as a list of
  characters, each character a code point below 256 (ASCII and Latin-1). The classes
  below are Python's own on that range: \<open>str.isspace\<close> and the \<open>\s\<close> of module
  \<open>re\<close> agree on the code points 9-13, 28-32, 133 and 160; \<open>\w\<close> is the ASCII
  letters and digits, the underscore and the alphanumeric characters of Latin-1.
\<close>

definition code :: "char \<Rightarrow> nat" where
  "code c = of_char c"

definition is_space :: "char \<Rightarrow> bool" where
  "is_space c = ((9 \<le> code c \<and> code c \<le> 13) \<or> (28 \<le> code c \<and> code c \<le> 32) \<or>
                 code c = 133 \<or> code c = 160)"

definition is_upper :: "char \<Rightarrow> bool" where
  "is_upper c = (65 \<le> code c \<and> code c \<le> 90)"

definition is_lower :: "char \<Rightarrow> bool" where
  "is_lower c = (97 \<le> code c \<and> code c \<le> 122)"

definition is_digit :: "char \<Rightarrow> bool" where
  "is_digit c = (48 \<le> code c \<and> code c \<le> 57)"

definition is_word :: "char \<Rightarrow> bool" where
  "is_word c = (is_upper c \<or> is_lower c \<or> is_digit c \<or> code c = 95 \<or>
                code c = 170 \<or> code c = 178 \<or> code c = 179 \<or> code c = 181 \<or>
                code c = 185 \<or> code c = 186 \<or> (188 \<le> code c \<and> code c \<le> 190) \<or>
                (192 \<le> code c \<and> code c \<le> 214) \<or> (216 \<le> code c \<and> code c \<le> 246) \<or>
                248 \<le> code c)"

definition newline :: char where
  "newline = CHR 0x0A"

text \<open>\<open>str.strip()\<close>, \<open>str.rstrip()\<close>, \<open>str.split('\n')\<close> and \<open>'\n'.join\<close>.\<close>

definition lstrip :: "string \<Rightarrow> string" where
  "lstrip s = dropWhile is_space s"

definition rstrip :: "string \<Rightarrow> string" where
  "rstrip s = rev (dropWhile is_space (rev s))"

definition strip :: "string \<Rightarrow> string" where
  "strip s = rstrip (lstrip s)"

fun split_lines :: "string \<Rightarrow> string list" where
  "split_lines [] = [[]]"
| "split_lines (c # cs) =
     (if c = newline then [] # split_lines cs
      else (case split_lines cs of [] \<Rightarrow> [[c]] | l # ls \<Rightarrow> (c # l) # ls))"

fun join_lines :: "string list \<Rightarrow> string" where
  "join_lines [] = []"
| "join_lines [l] = l"
| "join_lines (l # ls) = l @ newline # join_lines ls"

section \<open>The regular expressions of module re\<close>

text \<open>
  The patterns of the program use character classes, literals, \<open>\b\<close>, \<open>^\<close>,
  \<open>$\<close>, alternation, the greedy \<open>*\<close>, \<open>+\<close>, \<open>?\<close> and \<open>{2,}\<close>. A position
  in the subject is the text before it (reversed) and the text after it. The matcher
  returns the positions at which a match can end, in the order in which the backtracking
  matcher of \<open>re\<close> tries them: a greedy repetition first tries one more iteration, an
  alternation its branches left to right. The match \<open>re\<close> reports is the first.
\<close>

type_synonym pos = "string \<times> string"

datatype regex =
    Sym "char \<Rightarrow> bool"
  | WordB
  | Bos
  | Eos
  | Empty
  | Cat regex regex
  | Or regex regex
  | Star regex

definition word_at :: "string \<Rightarrow> bool" where
  "word_at s = (case s of [] \<Rightarrow> False | c # _ \<Rightarrow> is_word c)"

fun ms :: "regex \<Rightarrow> pos \<Rightarrow> pos list" where
  "ms (Sym P) (l, r) = (case r of [] \<Rightarrow> [] | c # cs \<Rightarrow> if P c then [(c # l, cs)] else [])"
| "ms WordB (l, r) = (if word_at l \<noteq> word_at r then [(l, r)] else [])"
| "ms Bos (l, r) = (if l = [] then [(l, r)] else [])"
| "ms Eos (l, r) = (if r = [] \<or> r = [newline] then [(l, r)] else [])"
| "ms Empty p = [p]"
| "ms (Cat a b) p = concat (map (ms b) (ms a p))"
| "ms (Or a b) p = ms a p @ ms b p"
| "ms (Star a) p =
     concat (map (\<lambda>q. if length (snd q) < length (snd p) then ms (Star a) q else [])
       (ms a p)) @ [p]"

definition seq :: "regex list \<Rightarrow> regex" where
  "seq rs = foldr Cat rs Empty"

fun alts :: "regex list \<Rightarrow> regex" where
  "alts [] = Sym (\<lambda>_. False)"
| "alts [r] = r"
| "alts (r # rs) = Or r (alts rs)"

definition plus :: "regex \<Rightarrow> regex" where
  "plus r = Cat r (Star r)"

definition opt :: "regex \<Rightarrow> regex" where
  "opt r = Or r Empty"

definition at_least2 :: "regex \<Rightarrow> regex" where
  "at_least2 r = Cat r (Cat r (Star r))"

definition chr :: "char \<Rightarrow> regex" where
  "chr c = Sym (\<lambda>x. x = c)"

definition any_char :: regex where
  "any_char = Sym (\<lambda>x. x \<noteq> newline)"

text \<open>
  Under \<open>re.IGNORECASE\<close> a letter of the pattern matches both of its cases. The
  patterns hold ASCII letters only, and below code point 256 nothing else folds to
  an ASCII letter.
\<close>

definition to_lower :: "char \<Rightarrow> char" where
  "to_lower c = (if is_upper c then char_of (code c + 32) else c)"

definition chr_i :: "char \<Rightarrow> regex" where
  "chr_i c = Sym (\<lambda>x. to_lower x = to_lower c)"

definition lit_i :: "string \<Rightarrow> regex" where
  "lit_i s = seq (map chr_i s)"

text \<open>\<open>re.match(pattern, s)\<close>: the first match at the start of \<open>s\<close>, or None.\<close>

definition re_match :: "regex \<Rightarrow> string \<Rightarrow> pos option" where
  "re_match r s = (case ms r ([], s) of [] \<Rightarrow> None | q # _ \<Rightarrow> Some q)"

text \<open>
  \<open>re.sub(pattern, repl, s)\<close>: scanning from the left, each leftmost match is replaced
  and the scan goes on after it; a character at which no match starts is copied. After
  an empty match the replacement is inserted and one character is copied.
\<close>

fun re_sub_from :: "regex \<Rightarrow> string \<Rightarrow> pos \<Rightarrow> string" where
  "re_sub_from r repl (l, s) =
     (case ms r (l, s) of
        [] \<Rightarrow> (case s of [] \<Rightarrow> [] | c # cs \<Rightarrow> c # re_sub_from r repl (c # l, cs))
      | (l', s') # _ \<Rightarrow>
          if length s' < length s then repl @ re_sub_from r repl (l', s')
          else repl @ (case s of [] \<Rightarrow> [] | c # cs \<Rightarrow> c # re_sub_from r repl (c # l, cs)))"

definition re_sub :: "regex \<Rightarrow> string \<Rightarrow> string \<Rightarrow> string" where
  "re_sub r repl s = re_sub_from r repl ([], s)"

section \<open>Email redaction\<close>

definition one_of :: "string \<Rightarrow> char \<Rightarrow> bool" where
  "one_of s c = (c \<in> set s)"

definition local_class :: "char \<Rightarrow> bool" where
  "local_class c = (is_upper c \<or> is_lower c \<or> is_digit c \<or> one_of ''._%+-'' c)"

definition domain_class :: "char \<Rightarrow> bool" where
  "domain_class c = (is_upper c \<or> is_lower c \<or> is_digit c \<or> one_of ''.-'' c)"

text \<open>The class \<open>[A-Z|a-z]\<close> of the source holds the bar as well as the letters.\<close>

definition tld_class :: "char \<Rightarrow> bool" where
  "tld_class c = (is_upper c \<or> c = CHR ''|'' \<or> is_lower c)"

definition email_pattern :: regex where
  "email_pattern =
     seq [WordB, plus (Sym local_class), chr CHR ''@'', plus (Sym domain_class),
          chr CHR ''.'', at_least2 (Sym tld_class), WordB]"

definition marker :: string where
  "marker = ''[redacted-email]''"

definition redact_emails :: "string \<Rightarrow> string" where
  "redact_emails text = re_sub email_pattern marker text"

section \<open>Signature removal\<close>

definition space_or_comma :: "char \<Rightarrow> bool" where
  "space_or_comma c = (is_space c \<or> c = CHR '','')"

definition keyword_line :: "string \<Rightarrow> regex" where
  "keyword_line k = seq [Bos, Star (Sym is_space), lit_i k, Sym space_or_comma]"

definition header_line :: "string \<Rightarrow> regex" where
  "header_line k = seq [Bos, Star (Sym is_space), lit_i k, Star (Sym is_space), chr_i CHR '':'']"

definition signature_patterns :: "regex list" where
  "signature_patterns =
     [keyword_line ''thanks'', keyword_line ''thank you'', keyword_line ''regards'',
      keyword_line ''best'', keyword_line ''cheers'', keyword_line ''sincerely'',
      header_line ''from'', header_line ''sent'', header_line ''to'', header_line ''cc'',
      header_line ''bcc'', header_line ''subject'']"

definition is_signature :: "string \<Rightarrow> bool" where
  "is_signature line = list_ex (\<lambda>pattern. re_match pattern line \<noteq> None) signature_patterns"

text \<open>The loop over the lines, with its flag \<open>found_signature\<close> and its accumulator.\<close>

fun scan_lines :: "bool \<Rightarrow> string list \<Rightarrow> string list \<Rightarrow> string list" where
  "scan_lines found_signature cleaned_lines [] = cleaned_lines"
| "scan_lines found_signature cleaned_lines (line # rest) =
     (if found_signature then scan_lines found_signature cleaned_lines rest
      else if is_signature line then scan_lines True cleaned_lines rest
      else scan_lines False (cleaned_lines @ [line]) rest)"

definition inline_keywords :: "string list" where
  "inline_keywords =
     [''thanks'', ''thank you'', ''regards'', ''best regards'', ''best'', ''cheers'',
      ''sincerely'']"

definition inline_tail :: "regex list" where
  "inline_tail =
     [plus (Sym is_space), alts (map lit_i inline_keywords), plus (Sym space_or_comma),
      Star any_char, Eos]"

definition inline_signature_pattern :: regex where
  "inline_signature_pattern = seq (opt (Sym (one_of ''.!?'')) # inline_tail)"

definition inline_signature_pattern2 :: regex where
  "inline_signature_pattern2 = seq (chr_i CHR '','' # inline_tail)"

definition line_stage :: "string \<Rightarrow> string" where
  "line_stage text = strip (join_lines (scan_lines False [] (split_lines text)))"

definition inline_stage :: "string \<Rightarrow> string" where
  "inline_stage result =
     re_sub inline_signature_pattern2 [] (re_sub inline_signature_pattern [] result)"

definition sentence_end :: "string \<Rightarrow> string" where
  "sentence_end result0 =
     (let result = rstrip result0 in
      if result \<noteq> [] \<and> \<not> one_of ''.!?'' (last result) then result @ ''.'' else result)"

definition remove_signature_lines :: "string \<Rightarrow> string" where
  "remove_signature_lines text = strip (sentence_end (inline_stage (line_stage text)))"

definition sanitize_content :: "string \<Rightarrow> string" where
  "sanitize_content content = strip (remove_signature_lines (redact_emails content))"

section \<open>Title derivation\<close>

text \<open>
  \<open>max_length * TITLE_WORD_BOUNDARY_THRESHOLD\<close> is a product of an int and the double
  nearest to 0.7, which is \<open>6305039478318694 / 2^53\<close>. The int is converted to a
  double (OverflowError beyond the range of doubles), the product is rounded to 53
  significant bits, ties to even. A double is kept here as its sign and its magnitude in
  units of \<open>2^-53\<close>; Python compares an int with a double exactly.
\<close>

datatype error = OverflowError | AttributeError

fun bit_length :: "nat \<Rightarrow> nat" where
  "bit_length n = (if n = 0 then 0 else Suc (bit_length (n div 2)))"

declare bit_length.simps [simp del]

definition round53 :: "nat \<Rightarrow> nat" where
  "round53 p =
     (if bit_length p \<le> 53 then p
      else (let sh = bit_length p - 53; q = p div 2 ^ sh; r = p mod 2 ^ sh; h = 2 ^ (sh - 1)
            in (if h < r \<or> (r = h \<and> odd q) then q + 1 else q) * 2 ^ sh))"

definition int_to_float :: "int \<Rightarrow> error + int" where
  "int_to_float n =
     (let m = round53 (nat \<bar>n\<bar>) in
      if 2 ^ 1024 \<le> m then Inl OverflowError else Inr (sgn n * int m))"

definition threshold_mantissa :: nat where
  "threshold_mantissa = 6305039478318694"

definition times_threshold :: "int \<Rightarrow> error + int" where
  "times_threshold n =
     (case int_to_float n of
        Inl e \<Rightarrow> Inl e
      | Inr a \<Rightarrow> Inr (sgn a * int (round53 (nat \<bar>a\<bar> * threshold_mantissa))))"

definition int_gt_float :: "int \<Rightarrow> int \<Rightarrow> bool" where
  "int_gt_float k v = (v < k * 2 ^ 53)"

text \<open>\<open>s[:n]\<close> and \<open>s.rfind(c)\<close> for a one-character \<open>c\<close>.\<close>

definition slice_to :: "string \<Rightarrow> int \<Rightarrow> string" where
  "slice_to s n = (if n < 0 then take (nat (int (length s) + n)) s else take (nat n) s)"

definition rfind :: "string \<Rightarrow> char \<Rightarrow> int" where
  "rfind s c =
     (if c \<in> set s then int (length s) - 1 - int (length (takeWhile (\<lambda>x. x \<noteq> c) (rev s)))
      else - 1)"

definition TITLE_PREFIX :: string where
  "TITLE_PREFIX = ''Q&A: ''"

definition TITLE_MAX_LENGTH :: int where
  "TITLE_MAX_LENGTH = 60"

definition generate_title :: "string \<Rightarrow> int \<Rightarrow> error + string" where
  "generate_title content max_length =
     (let title_content = slice_to content max_length in
      if max_length < int (length content) then
        (case times_threshold max_length of
           Inl e \<Rightarrow> Inl e
         | Inr bound \<Rightarrow>
             (let last_space = rfind title_content CHR '' '';
                  title_content' =
                    (if int_gt_float last_space bound then slice_to title_content last_space
                     else title_content)
              in Inr (TITLE_PREFIX @ title_content' @ ''...'')))
      else Inr (TITLE_PREFIX @ title_content))"

section \<open>Record selection\<close>

text \<open>
  The rows come from \<open>csv.DictReader\<close> over a file read as UTF-8: a row is a dictionary
  from the column names to the fields of the line. A field is a \<open>str\<close>, a list of
  Unicode code points here. For a line with fewer fields than the header has columns the
  missing fields are \<open>None\<close>; the surplus fields of a longer line are a list, stored
  under the key \<open>None\<close>.
\<close>

type_synonym ustring = "nat list"

datatype pyval = Str ustring | NoneVal | ListVal "ustring list"

type_synonym row = "ustring option \<rightharpoonup> pyval"

definition codes :: "string \<Rightarrow> ustring" where
  "codes s = map code s"

text \<open>
  \<open>str.upper()\<close> replaces each character by its upper-case form in the Unicode
  character database (version 14), which is one to three code points. \<open>upper_special\<close>
  lists the characters with a form of several code points. An entry \<open>(a, b, st, ua)\<close>
  of \<open>upper_runs\<close> stands for the characters \<open>a\<close>, \<open>a + st\<close>, ... up to \<open>b\<close>,
  whose forms are \<open>ua\<close>, \<open>ua + st\<close>, ...; every other character is its own form.
\<close>

definition upper_special :: "(nat \<times> nat list) list" where
  "upper_special =
     [
      (223, [83, 83]), (329, [700, 78]), (496, [74, 780]), (912, [921, 776, 769]),
      (944, [933, 776, 769]), (1415, [1333, 1362]), (7830, [72, 817]), (7831, [84, 776]),
      (7832, [87, 778]), (7833, [89, 778]), (7834, [65, 702]), (8016, [933, 787]),
      (8018, [933, 787, 768]), (8020, [933, 787, 769]), (8022, [933, 787, 834]),
      (8064, [7944, 921]), (8065, [7945, 921]), (8066, [7946, 921]), (8067, [7947, 921]),
      (8068, [7948, 921]), (8069, [7949, 921]), (8070, [7950, 921]), (8071, [7951, 921]),
      (8072, [7944, 921]), (8073, [7945, 921]), (8074, [7946, 921]), (8075, [7947, 921]),
      (8076, [7948, 921]), (8077, [7949, 921]), (8078, [7950, 921]), (8079, [7951, 921]),
      (8080, [7976, 921]), (8081, [7977, 921]), (8082, [7978, 921]), (8083, [7979, 921]),
      (8084, [7980, 921]), (8085, [7981, 921]), (8086, [7982, 921]), (8087, [7983, 921]),
      (8088, [7976, 921]), (8089, [7977, 921]), (8090, [7978, 921]), (8091, [7979, 921]),
      (8092, [7980, 921]), (8093, [7981, 921]), (8094, [7982, 921]), (8095, [7983, 921]),
      (8096, [8040, 921]), (8097, [8041, 921]), (8098, [8042, 921]), (8099, [8043, 921]),
      (8100, [8044, 921]), (8101, [8045, 921]), (8102, [8046, 921]), (8103, [8047, 921]),
      (8104, [8040, 921]), (8105, [8041, 921]), (8106, [8042, 921]), (8107, [8043, 921]),
      (8108, [8044, 921]), (8109, [8045, 921]), (8110, [8046, 921]), (8111, [8047, 921]),
      (8114, [8122, 921]), (8115, [913, 921]), (8116, [902, 921]), (8118, [913, 834]),
      (8119, [913, 834, 921]), (8124, [913, 921]), (8130, [8138, 921]), (8131, [919, 921]),
      (8132, [905, 921]), (8134, [919, 834]), (8135, [919, 834, 921]), (8140, [919, 921]),
      (8146, [921, 776, 768]), (8147, [921, 776, 769]), (8150, [921, 834]),
      (8151, [921, 776, 834]), (8162, [933, 776, 768]), (8163, [933, 776, 769]),
      (8164, [929, 787]), (8166, [933, 834]), (8167, [933, 776, 834]), (8178, [8186, 921]),
      (8179, [937, 921]), (8180, [911, 921]), (8182, [937, 834]), (8183, [937, 834, 921]),
      (8188, [937, 921]), (64256, [70, 70]), (64257, [70, 73]), (64258, [70, 76]),
      (64259, [70, 70, 73]), (64260, [70, 70, 76]), (64261, [83, 84]), (64262, [83, 84]),
      (64275, [1348, 1350]), (64276, [1348, 1333]), (64277, [1348, 1339]),
      (64278, [1358, 1350]), (64279, [1348, 1341])
     ]"

definition upper_runs :: "(nat \<times> nat \<times> nat \<times> nat) list" where
  "upper_runs =
     [
      (97, 122, 1, 65), (181, 181, 1, 924), (224, 246, 1, 192), (248, 254, 1, 216),
      (255, 255, 1, 376), (257, 303, 2, 256), (305, 305, 1, 73), (307, 311, 2, 306),
      (314, 328, 2, 313), (331, 375, 2, 330), (378, 382, 2, 377), (383, 383, 1, 83),
      (384, 384, 1, 579), (387, 389, 2, 386), (392, 392, 1, 391), (396, 396, 1, 395),
      (402, 402, 1, 401), (405, 405, 1, 502), (409, 409, 1, 408), (410, 410, 1, 573),
      (414, 414, 1, 544), (417, 421, 2, 416), (424, 424, 1, 423), (429, 429, 1, 428),
      (432, 432, 1, 431), (436, 438, 2, 435), (441, 441, 1, 440), (445, 445, 1, 444),
      (447, 447, 1, 503), (453, 453, 1, 452), (454, 454, 1, 452), (456, 456, 1, 455),
      (457, 457, 1, 455), (459, 459, 1, 458), (460, 460, 1, 458), (462, 476, 2, 461),
      (477, 477, 1, 398), (479, 495, 2, 478), (498, 498, 1, 497), (499, 499, 1, 497),
      (501, 501, 1, 500), (505, 543, 2, 504), (547, 563, 2, 546), (572, 572, 1, 571),
      (575, 576, 1, 11390), (578, 578, 1, 577), (583, 591, 2, 582), (592, 592, 1, 11375),
      (593, 593, 1, 11373), (594, 594, 1, 11376), (595, 595, 1, 385), (596, 596, 1, 390),
      (598, 599, 1, 393), (601, 601, 1, 399), (603, 603, 1, 400), (604, 604, 1, 42923),
      (608, 608, 1, 403), (609, 609, 1, 42924), (611, 611, 1, 404), (613, 613, 1, 42893),
      (614, 614, 1, 42922), (616, 616, 1, 407), (617, 617, 1, 406), (618, 618, 1, 42926),
      (619, 619, 1, 11362), (620, 620, 1, 42925), (623, 623, 1, 412), (625, 625, 1, 11374),
      (626, 626, 1, 413), (629, 629, 1, 415), (637, 637, 1, 11364), (640, 640, 1, 422),
      (642, 642, 1, 42949), (643, 643, 1, 425), (647, 647, 1, 42929), (648, 648, 1, 430),
      (649, 649, 1, 580), (650, 651, 1, 433), (652, 652, 1, 581), (658, 658, 1, 439),
      (669, 669, 1, 42930), (670, 670, 1, 42928), (837, 837, 1, 921), (881, 883, 2, 880),
      (887, 887, 1, 886), (891, 893, 1, 1021), (940, 940, 1, 902), (941, 943, 1, 904),
      (945, 961, 1, 913), (962, 962, 1, 931), (963, 971, 1, 931), (972, 972, 1, 908),
      (973, 974, 1, 910), (976, 976, 1, 914), (977, 977, 1, 920), (981, 981, 1, 934),
      (982, 982, 1, 928), (983, 983, 1, 975), (985, 1007, 2, 984), (1008, 1008, 1, 922),
      (1009, 1009, 1, 929), (1010, 1010, 1, 1017), (1011, 1011, 1, 895), (1013, 1013, 1, 917),
      (1016, 1016, 1, 1015), (1019, 1019, 1, 1018), (1072, 1103, 1, 1040),
      (1104, 1119, 1, 1024), (1121, 1153, 2, 1120), (1163, 1215, 2, 1162),
      (1218, 1230, 2, 1217), (1231, 1231, 1, 1216), (1233, 1327, 2, 1232),
      (1377, 1414, 1, 1329), (4304, 4346, 1, 7312), (4349, 4351, 1, 7357),
      (5112, 5117, 1, 5104), (7296, 7296, 1, 1042), (7297, 7297, 1, 1044),
      (7298, 7298, 1, 1054), (7299, 7300, 1, 1057), (7301, 7301, 1, 1058),
      (7302, 7302, 1, 1066), (7303, 7303, 1, 1122), (7304, 7304, 1, 42570),
      (7545, 7545, 1, 42877), (7549, 7549, 1, 11363), (7566, 7566, 1, 42950),
      (7681, 7829, 2, 7680), (7835, 7835, 1, 7776), (7841, 7935, 2, 7840),
      (7936, 7943, 1, 7944), (7952, 7957, 1, 7960), (7968, 7975, 1, 7976),
      (7984, 7991, 1, 7992), (8000, 8005, 1, 8008), (8017, 8023, 2, 8025),
      (8032, 8039, 1, 8040), (8048, 8049, 1, 8122), (8050, 8053, 1, 8136),
      (8054, 8055, 1, 8154), (8056, 8057, 1, 8184), (8058, 8059, 1, 8170),
      (8060, 8061, 1, 8186), (8112, 8113, 1, 8120), (8126, 8126, 1, 921), (8144, 8145, 1, 8152),
      (8160, 8161, 1, 8168), (8165, 8165, 1, 8172), (8526, 8526, 1, 8498),
      (8560, 8575, 1, 8544), (8580, 8580, 1, 8579), (9424, 9449, 1, 9398),
      (11312, 11359, 1, 11264), (11361, 11361, 1, 11360), (11365, 11365, 1, 570),
      (11366, 11366, 1, 574), (11368, 11372, 2, 11367), (11379, 11379, 1, 11378),
      (11382, 11382, 1, 11381), (11393, 11491, 2, 11392), (11500, 11502, 2, 11499),
      (11507, 11507, 1, 11506), (11520, 11557, 1, 4256), (11559, 11559, 1, 4295),
      (11565, 11565, 1, 4301), (42561, 42605, 2, 42560), (42625, 42651, 2, 42624),
      (42787, 42799, 2, 42786), (42803, 42863, 2, 42802), (42874, 42876, 2, 42873),
      (42879, 42887, 2, 42878), (42892, 42892, 1, 42891), (42897, 42899, 2, 42896),
      (42900, 42900, 1, 42948), (42903, 42921, 2, 42902), (42933, 42947, 2, 42932),
      (42952, 42954, 2, 42951), (42961, 42961, 1, 42960), (42967, 42969, 2, 42966),
      (42998, 42998, 1, 42997), (43859, 43859, 1, 42931), (43888, 43967, 1, 5024),
      (65345, 65370, 1, 65313), (66600, 66639, 1, 66560), (66776, 66811, 1, 66736),
      (66967, 67003, 2, 66928), (66968, 66976, 2, 66929), (66980, 66992, 2, 66941),
      (66996, 67000, 2, 66957), (67004, 67004, 1, 66965), (68800, 68850, 1, 68736),
      (71872, 71903, 1, 71840), (93792, 93823, 1, 93760), (125218, 125251, 1, 125184)
     ]"

definition in_run :: "nat \<Rightarrow> nat \<times> nat \<times> nat \<times> nat \<Rightarrow> bool" where
  "in_run c = (\<lambda>(a, b, st, ua). a \<le> c \<and> c \<le> b \<and> (c - a) mod st = 0)"

definition upper_char :: "nat \<Rightarrow> ustring" where
  "upper_char c =
     (case map_of upper_special c of
        Some u \<Rightarrow> u
      | None \<Rightarrow>
          (case find (in_run c) upper_runs of
             Some (a, b, st, ua) \<Rightarrow> [ua + (c - a)]
           | None \<Rightarrow> [c]))"

definition upper :: "ustring \<Rightarrow> ustring" where
  "upper s = concat (map upper_char s)"

text \<open>
  \<open>row.get(key, '')\<close>, and the call \<open>value.upper()\<close>: only a \<open>str\<close> has the method,
  on \<open>None\<close> and on a list the attribute lookup raises.
\<close>

definition get :: "row \<Rightarrow> ustring \<Rightarrow> pyval \<Rightarrow> pyval" where
  "get r k d = (case r (Some k) of None \<Rightarrow> d | Some v \<Rightarrow> v)"

fun upper_method :: "pyval \<Rightarrow> error + ustring" where
  "upper_method (Str s) = Inr (upper s)"
| "upper_method NoneVal = Inl AttributeError"
| "upper_method (ListVal xs) = Inl AttributeError"

text \<open>
  The condition of the loop. \<open>and\<close> evaluates its right operand only when the left one
  holds, so the \<open>Type\<close> of a row is looked at only when its \<open>Source\<close> is the attendee.
\<close>

definition is_attendee_question :: "row \<Rightarrow> error + bool" where
  "is_attendee_question row =
     (case upper_method (get row (codes ''Source'') (Str [])) of
        Inl e \<Rightarrow> Inl e
      | Inr source \<Rightarrow>
          if source = codes ''ATTENDEE'' then
            (case upper_method (get row (codes ''Type'') (Str [])) of
               Inl e \<Rightarrow> Inl e
             | Inr kind \<Rightarrow> Inr (kind = codes ''QUESTION''))
          else Inr False)"

fun filter_loop :: "row list \<Rightarrow> row list \<Rightarrow> error + row list" where
  "filter_loop filtered [] = Inr filtered"
| "filter_loop filtered (row # rows) =
     (case is_attendee_question row of
        Inl e \<Rightarrow> Inl e
      | Inr selected \<Rightarrow> filter_loop (if selected then filtered @ [row] else filtered) rows)"

definition filter_questions :: "row list \<Rightarrow> error + row list" where
  "filter_questions rows = filter_loop [] rows"

section \<open>The claims as the specification words them\<close>

text \<open>
  The title of the specification: the slice is backed off to its last space when the
  position of that space is at least seven tenths of \<open>max_length\<close>.
\<close>

definition spec_title :: "string \<Rightarrow> int \<Rightarrow> string" where
  "spec_title content max_length =
     (let slice = take (nat max_length) content; i = rfind slice CHR '' ''
      in TITLE_PREFIX @
         (if 0 \<le> i \<and> 7 * max_length \<le> 10 * i then take (nat i) slice else slice) @ ''...'')"

text \<open>
  Equality of two texts up to the case of their ASCII letters, and text without
  surrounding whitespace.
\<close>

definition ci_equal :: "string \<Rightarrow> string \<Rightarrow> bool" where
  "ci_equal a b = (map to_lower a = map to_lower b)"

definition trimmed :: "string \<Rightarrow> bool" where
  "trimmed t = (t = [] \<or> (\<not> is_space (hd t) \<and> \<not> is_space (last t)))"

text \<open>
  The line cues in words: after optional leading whitespace a keyword in any case,
  directly followed by a whitespace character or a comma; or a header word, optional
  whitespace and a colon.
\<close>

definition ci_starts :: "string \<Rightarrow> string \<Rightarrow> bool" where
  "ci_starts k s = ci_equal (take (length k) s) k"

definition keyword_cue :: "string \<Rightarrow> string \<Rightarrow> bool" where
  "keyword_cue k line =
     (let r = lstrip line in
      ci_starts k r \<and> (case drop (length k) r of [] \<Rightarrow> False | c # _ \<Rightarrow> space_or_comma c))"

definition header_cue :: "string \<Rightarrow> string \<Rightarrow> bool" where
  "header_cue k line =
     (let r = lstrip line in
      ci_starts k r \<and>
      (case lstrip (drop (length k) r) of [] \<Rightarrow> False | c # _ \<Rightarrow> c = CHR '':''))"

definition line_keywords :: "string list" where
  "line_keywords = [''thanks'', ''thank you'', ''regards'', ''best'', ''cheers'', ''sincerely'']"

definition header_keywords :: "string list" where
  "header_keywords = [''from'', ''sent'', ''to'', ''cc'', ''bcc'', ''subject'']"

definition signature_cue :: "string \<Rightarrow> bool" where
  "signature_cue line =
     (list_ex (\<lambda>k. keyword_cue k line) line_keywords \<or>
      list_ex (\<lambda>k. header_cue k line) header_keywords)"

text \<open>
  The line cues as the specification words them: the keyword may stand alone (the comma
  or whitespace after it is optional), and a header word is directly followed by the colon.
\<close>

definition spec_signature_cue :: "string \<Rightarrow> bool" where
  "spec_signature_cue line =
     (list_ex (\<lambda>k. ci_starts k (lstrip line)) line_keywords \<or>
      list_ex (\<lambda>k. ci_starts (k @ '':'') (lstrip line)) header_keywords)"

text \<open>
  The same with the header words as the patterns have them: whitespace may stand between
  the header word and the colon.
\<close>

definition line_start_cue :: "string \<Rightarrow> bool" where
  "line_start_cue line =
     (list_ex (\<lambda>k. ci_starts k (lstrip line)) line_keywords \<or>
      list_ex (\<lambda>k. header_cue k line) header_keywords)"

text \<open>
  An email-like substring: a local part, the at sign, a domain, a dot and a top-level
  part of two or more characters of the class \<open>tld\<close>. It occurs in a text when a
  word edge stands before it and after it; \<open>w\<close> says whether the character before
  is a word character. A text is free of such substrings when none starts at any of
  its positions.
\<close>

definition is_alpha :: "char \<Rightarrow> bool" where
  "is_alpha c = (is_upper c \<or> is_lower c)"

definition shaped :: "(char \<Rightarrow> bool) \<Rightarrow> string \<Rightarrow> bool" where
  "shaped tld m =
     (\<exists>lp dm tl. m = lp @ CHR ''@'' # dm @ CHR ''.'' # tl \<and>
        lp \<noteq> [] \<and> (\<forall>c\<in>set lp. local_class c) \<and>
        dm \<noteq> [] \<and> (\<forall>c\<in>set dm. domain_class c) \<and>
        2 \<le> length tl \<and> (\<forall>c\<in>set tl. tld c))"

definition email_at :: "(char \<Rightarrow> bool) \<Rightarrow> bool \<Rightarrow> string \<Rightarrow> string \<Rightarrow> bool" where
  "email_at tld w m r = (shaped tld m \<and> w \<noteq> word_at m \<and> word_at (rev m) \<noteq> word_at r)"

definition starts_email :: "(char \<Rightarrow> bool) \<Rightarrow> bool \<Rightarrow> string \<Rightarrow> bool" where
  "starts_email tld w s = (\<exists>m r. s = m @ r \<and> email_at tld w m r)"

definition email_free :: "(char \<Rightarrow> bool) \<Rightarrow> bool \<Rightarrow> string \<Rightarrow> bool" where
  "email_free tld w t =
     (\<forall>a b. t = a @ b \<longrightarrow> \<not> starts_email tld (if a = [] then w else is_word (last a)) b)"

text \<open>The scan of \<open>re.sub\<close> for the email pattern, from a position.\<close>

text \<open>
  The class \<open>[A-Z|a-z]\<close> of the source lets a match run through a bar. A text is free
  of that when no email-like substring with such a top-level part, bounded by word edges
  where it stands, holds a bar.
\<close>

definition no_bar_email :: "string \<Rightarrow> bool" where
  "no_bar_email s =
     (\<forall>b m r. s = b @ m @ r \<and> email_at tld_class (word_at (rev b)) m r \<longrightarrow>
        CHR ''|'' \<notin> set m)"

definition redact_from :: "string \<Rightarrow> string \<Rightarrow> string" where
  "redact_from l s = re_sub_from email_pattern marker (l, s)"

text \<open>
  Where the inline patterns match, in words. Without \<open>re.DOTALL\<close> the \<open>.*\<close> of the
  patterns stops at a newline, so after a keyword there must come one or more whitespace
  characters or commas and then no newline before the last character of the text
  (\<open>keyword_tail\<close>). A tail cue is one or more whitespace characters, a keyword in
  any case and such a tail; the first pattern matches a tail cue with an optional
  \<open>.\<close>, \<open>!\<close> or \<open>?\<close> before it, the second a comma and a tail cue.
  \<open>cue_positions\<close> lists the positions of a text at which a cue starts.
\<close>

definition line_tail :: "string \<Rightarrow> bool" where
  "line_tail r = (newline \<notin> set (butlast r))"

definition keyword_tail :: "string \<Rightarrow> bool" where
  "keyword_tail r =
     (case r of [] \<Rightarrow> False
      | c # _ \<Rightarrow> space_or_comma c \<and> line_tail (dropWhile space_or_comma r))"

definition tail_cue :: "string \<Rightarrow> bool" where
  "tail_cue r =
     (case r of [] \<Rightarrow> False
      | c # _ \<Rightarrow> is_space c \<and>
          list_ex (\<lambda>k. ci_starts k (lstrip r) \<and> keyword_tail (drop (length k) (lstrip r)))
            inline_keywords)"

definition inline_cue :: "string \<Rightarrow> bool" where
  "inline_cue r =
     (tail_cue r \<or> (case r of [] \<Rightarrow> False | c # cs \<Rightarrow> one_of ''.!?'' c \<and> tail_cue cs))"

definition comma_cue :: "string \<Rightarrow> bool" where
  "comma_cue r = (case r of [] \<Rightarrow> False | c # cs \<Rightarrow> c = CHR '','' \<and> tail_cue cs)"

definition cue_positions :: "(string \<Rightarrow> bool) \<Rightarrow> string \<Rightarrow> nat list" where
  "cue_positions cue t = filter (\<lambda>p. cue (drop p t)) [0..<length t]"

text \<open>The parts of a match of the common tail of the two inline patterns.\<close>

definition tail_parts :: "string \<Rightarrow> string \<Rightarrow> bool" where
  "tail_parts m s' =
     (\<exists>w kw sp t. m = w @ kw @ sp @ t \<and> w \<noteq> [] \<and> (\<forall>x\<in>set w. is_space x) \<and>
        (\<exists>k\<in>set inline_keywords. map to_lower kw = map to_lower k) \<and>
        sp \<noteq> [] \<and> (\<forall>x\<in>set sp. space_or_comma x) \<and> newline \<notin> set t \<and>
        (s' = [] \<or> s' = [newline]))"

text \<open>
  A pattern is trailing when each of its matches runs to the end of the text, or to the
  newline that ends the text, and takes at least two characters.
\<close>

definition trailing :: "regex \<Rightarrow> bool" where
  "trailing R =
     (\<forall>l r q. q \<in> set (ms R (l, r)) \<longrightarrow>
        (snd q = [] \<or> snd q = [newline]) \<and> length (snd q) + 2 \<le> length r)"

text \<open>
  What a trim returns: the text itself when no cue starts in it, and otherwise the text
  before the first cue; when the text ends in a newline, that newline may remain.
\<close>

definition trim_result :: "(string \<Rightarrow> bool) \<Rightarrow> string \<Rightarrow> string \<Rightarrow> bool" where
  "trim_result cue t out =
     (case cue_positions cue t of
        [] \<Rightarrow> out = t
      | p # _ \<Rightarrow> out = take p t \<or> (out = take p t @ [newline] \<and> last t = newline))"

text \<open>
  The closings of the inline trims in words: one or more whitespace characters, a keyword
  in any case and at least one whitespace character or comma; before them an optional
  \<open>.\<close>, \<open>!\<close> or \<open>?\<close> for the first trim, a comma for the second. What follows
  plays no part. A trim cuts the text at the first position where a closing starts.
\<close>

definition keyword_sep :: "string \<Rightarrow> bool" where
  "keyword_sep r = (case r of [] \<Rightarrow> False | c # _ \<Rightarrow> space_or_comma c)"

definition closing :: "string \<Rightarrow> bool" where
  "closing r =
     (case r of [] \<Rightarrow> False
      | c # _ \<Rightarrow> is_space c \<and>
          list_ex (\<lambda>k. ci_starts k (lstrip r) \<and> keyword_sep (drop (length k) (lstrip r)))
            inline_keywords)"

definition inline_closing :: "string \<Rightarrow> bool" where
  "inline_closing r =
     (closing r \<or> (case r of [] \<Rightarrow> False | c # cs \<Rightarrow> one_of ''.!?'' c \<and> closing cs))"

definition comma_closing :: "string \<Rightarrow> bool" where
  "comma_closing r = (case r of [] \<Rightarrow> False | c # cs \<Rightarrow> c = CHR '','' \<and> closing cs)"

definition trim_first :: "(string \<Rightarrow> bool) \<Rightarrow> string \<Rightarrow> string" where
  "trim_first cue t = (case cue_positions cue t of [] \<Rightarrow> t | p # _ \<Rightarrow> take p t)"

text \<open>
  The first closing of a text runs to the end when the first pattern matches where it
  starts: no newline stands between the whitespace and commas after the keyword and the
  last character of the text.
\<close>

definition first_closing_to_end :: "string \<Rightarrow> bool" where
  "first_closing_to_end t =
     (case cue_positions inline_closing t of [] \<Rightarrow> True | p # _ \<Rightarrow> inline_cue (drop p t))"

text \<open>
  The first trim as the specification words it: the cut is at the start of the last
  occurrence of an optional sentence-ending mark, whitespace and a keyword.
\<close>

definition spec_inline_cue :: "string \<Rightarrow> bool" where
  "spec_inline_cue r =
     (let r' = (case r of [] \<Rightarrow> [] | c # cs \<Rightarrow> if one_of ''.!?'' c then cs else r)
      in (case r' of [] \<Rightarrow> False
          | c # _ \<Rightarrow> is_space c \<and> list_ex (\<lambda>k. ci_starts k (lstrip r')) inline_keywords))"

definition spec_trim_last :: "string \<Rightarrow> string" where
  "spec_trim_last t =
     (case filter (\<lambda>p. p = 0 \<or> \<not> spec_inline_cue (drop (p - 1) t))
             (cue_positions spec_inline_cue t) of
        [] \<Rightarrow> t
      | p # ps \<Rightarrow> take (last (p # ps)) t)"

text \<open>
  Redaction in words, for the top-level part of the specification (alphabetic
  characters). A match is an email-like substring bounded by word edges where it stands,
  the longest one that starts at its place. \<open>redaction w s out n\<close>: the text \<open>s\<close>
  is a chain of gaps and matches, no email-like substring starts inside a gap or in the
  rest after the last match, and \<open>out\<close> is \<open>s\<close> with each of the \<open>n\<close> matches
  replaced by the marker and the gaps as they were. \<open>count_marker\<close> counts the
  markers of a text.
\<close>

definition longest_email :: "bool \<Rightarrow> string \<Rightarrow> string \<Rightarrow> bool" where
  "longest_email w m r =
     (email_at is_alpha w m r \<and>
      (\<forall>m' r'. m' @ r' = m @ r \<and> email_at is_alpha w m' r' \<longrightarrow> length m' \<le> length m))"

inductive redaction :: "bool \<Rightarrow> string \<Rightarrow> string \<Rightarrow> nat \<Rightarrow> bool" where
  rest: "email_free is_alpha w s \<Longrightarrow> redaction w s s 0"
| step: "(\<forall>a b. g = a @ b \<and> b \<noteq> [] \<longrightarrow>
            \<not> starts_email is_alpha (if a = [] then w else is_word (last a)) (b @ m @ s)) \<Longrightarrow>
         longest_email (if g = [] then w else is_word (last g)) m s \<Longrightarrow>
         redaction (is_word (last m)) s out n \<Longrightarrow>
         redaction w (g @ m @ s) (g @ marker @ out) (Suc n)"

fun count_marker :: "string \<Rightarrow> nat" where
  "count_marker [] = 0"
| "count_marker (c # s) = (if prefix marker (c # s) then 1 else 0) + count_marker s"

section \<open>Title derivation: properties\<close>

lemma bit_length_unfold: "bit_length n = (if n = 0 then 0 else Suc (bit_length (n div 2)))"
  by (rule bit_length.simps)

lemma times_threshold_default: "times_threshold 60 = Inr (42 * 2 ^ 53)"
  by (simp add: times_threshold_def int_to_float_def round53_def threshold_mantissa_def
      bit_length_unfold Let_def)

lemma length_slice_to: "0 \<le> n \<Longrightarrow> length (slice_to s n) \<le> nat n"
  by (simp add: slice_to_def)

lemma rfind_last: "c \<notin> set b \<Longrightarrow> rfind (a @ c # b) c = int (length a)"
proof -
  assume "c \<notin> set b"
  then have "takeWhile (\<lambda>x. x \<noteq> c) (rev b @ c # rev a) = rev b"
    by (auto simp: takeWhile_tail)
  then show ?thesis by (simp add: rfind_def)
qed

lemma rfind_absent: "c \<notin> set s \<Longrightarrow> rfind s c = - 1"
  by (simp add: rfind_def)

lemma int_gt_float_neg: "0 \<le> bound \<Longrightarrow> \<not> int_gt_float (- 1) bound"
  by (simp add: int_gt_float_def)

lemma times_threshold_nonneg:
  assumes "0 \<le> n" and "times_threshold n = Inr bound"
  shows "0 \<le> bound"
  using assms
  by (auto simp: times_threshold_def int_to_float_def Let_def zero_le_mult_iff sgn_if
      split: if_splits sum.splits)

lemmas title_eval = generate_title_def times_threshold_default slice_to_def rfind_def
  int_gt_float_def TITLE_PREFIX_def TITLE_MAX_LENGTH_def Let_def

text \<open>
  Claim C4, as amended. For content longer than \<open>max_length\<close> the title is the prefix,
  the first \<open>max_length\<close> characters and the ellipsis; the slice is backed off to its
  last space exactly when the position of that space is strictly greater than the double
  \<open>max_length * 0.7\<close>. With the default 60 that double is 42.0, so the position has to
  be 43 or more.
\<close>

theorem generate_title_truncated:
  assumes "0 \<le> max_length" and "max_length < int (length content)"
    and "times_threshold max_length = Inr bound"
  shows "(take (nat max_length) content = a @ CHR '' '' # b \<and> CHR '' '' \<notin> set b \<and>
            int_gt_float (int (length a)) bound \<longrightarrow>
          generate_title content max_length = Inr (TITLE_PREFIX @ a @ ''...'')) \<and>
         (CHR '' '' \<notin> set (take (nat max_length) content) \<or>
          (take (nat max_length) content = a @ CHR '' '' # b \<and> CHR '' '' \<notin> set b \<and>
            \<not> int_gt_float (int (length a)) bound) \<longrightarrow>
          generate_title content max_length =
            Inr (TITLE_PREFIX @ take (nat max_length) content @ ''...'')) \<and>
         times_threshold TITLE_MAX_LENGTH = Inr (42 * 2 ^ 53) \<and>
         (int_gt_float k (42 * 2 ^ 53) \<longleftrightarrow> 42 < k)"
proof -
  let ?w = "take (nat max_length) content"
  have sl: "slice_to content max_length = ?w"
    using assms(1) by (simp add: slice_to_def)
  have gen: "generate_title content max_length =
      Inr (TITLE_PREFIX @ (if int_gt_float (rfind ?w CHR '' '') bound
                           then slice_to ?w (rfind ?w CHR '' '') else ?w) @ ''...'')"
    using assms by (simp add: generate_title_def sl Let_def)
  have nn: "0 \<le> bound" using times_threshold_nonneg assms(1,3) by blast
  have "generate_title content max_length = Inr (TITLE_PREFIX @ a @ ''...'')"
    if "?w = a @ CHR '' '' # b" "CHR '' '' \<notin> set b" "int_gt_float (int (length a)) bound"
    using that by (simp add: gen rfind_last slice_to_def)
  moreover have "generate_title content max_length = Inr (TITLE_PREFIX @ ?w @ ''...'')"
    if "CHR '' '' \<notin> set ?w"
    using that nn by (simp add: gen rfind_absent int_gt_float_neg)
  moreover have "generate_title content max_length = Inr (TITLE_PREFIX @ ?w @ ''...'')"
    if "?w = a @ CHR '' '' # b" "CHR '' '' \<notin> set b" "\<not> int_gt_float (int (length a)) bound"
    using that by (simp add: gen rfind_last)
  moreover have "times_threshold TITLE_MAX_LENGTH = Inr (42 * 2 ^ 53)"
    by (simp add: TITLE_MAX_LENGTH_def times_threshold_default)
  moreover have "int_gt_float k (42 * 2 ^ 53) \<longleftrightarrow> 42 < k"
    by (simp add: int_gt_float_def)
  ultimately show ?thesis by (intro conjI impI) (elim conjE disjE; assumption)+
qed

theorem generate_title_truncated_witness:
  "generate_title ''Is there any way to share prompt files across repositories-without-copying-them-by-hand?'' 60
     = Inr ''Q&A: Is there any way to share prompt files across...'' \<and>
   generate_title ''Where can I find the merged pull requests? authenticated-personal-access-tokens-expire'' 60
     = Inr ''Q&A: Where can I find the merged pull requests? authenticated-per...''"
proof -
  let ?c1 = "''Is there any way to share prompt files across repositories-without-copying-them-by-hand?''"
  let ?c2 = "''Where can I find the merged pull requests? authenticated-personal-access-tokens-expire''"
  have b: "times_threshold 60 = Inr (42 * 2 ^ 53)" by (rule times_threshold_default)
  have z: "(0::int) \<le> 60" by simp
  have l1: "(60::int) < int (length ?c1)" by simp
  have l2: "(60::int) < int (length ?c2)" by simp
  have g1: "int_gt_float (int (length ''Is there any way to share prompt files across'')) (42 * 2 ^ 53)"
    by (simp add: int_gt_float_def)
  have g2: "\<not> int_gt_float (int (length ''Where can I find the merged pull requests?'')) (42 * 2 ^ 53)"
    by (simp add: int_gt_float_def)
  have t1: "take (nat 60) ?c1 = ''Is there any way to share prompt files across'' @ CHR '' '' # ''repositories-w''"
    by simp
  have t2: "take (nat 60) ?c2 = ''Where can I find the merged pull requests?'' @ CHR '' '' # ''authenticated-per''"
    by simp
  have n1: "CHR '' '' \<notin> set ''repositories-w''" by simp
  have n2: "CHR '' '' \<notin> set ''authenticated-per''" by simp
  note th1 = generate_title_truncated [OF z l1 b,
      of "''Is there any way to share prompt files across''" "''repositories-w''"]
  note th2 = generate_title_truncated [OF z l2 b,
      of "''Where can I find the merged pull requests?''" "''authenticated-per''"]
  have r1: "generate_title ?c1 60 = Inr (TITLE_PREFIX @ ''Is there any way to share prompt files across'' @ ''...'')"
    by (rule mp [OF conjunct1 [OF th1]]) (intro conjI t1 n1 g1)
  have r2: "generate_title ?c2 60 = Inr (TITLE_PREFIX @ take (nat 60) ?c2 @ ''...'')"
    by (rule mp [OF conjunct1 [OF conjunct2 [OF th2]]]) (intro disjI2 conjI t2 n2 g2)
  show ?thesis using r1 r2 by (simp add: TITLE_PREFIX_def)
qed

text \<open>
  Claim C4 as stated fails where the last space of the slice stands at position 42: the
  claim backs off to it, the program keeps the cut at 60 characters.
\<close>

theorem title_backoff_counterexample:
  "generate_title ''Where can I find the merged pull requests? authenticated-personal-access-tokens-expire'' 60
     = Inr ''Q&A: Where can I find the merged pull requests? authenticated-per...'' \<and>
   spec_title ''Where can I find the merged pull requests? authenticated-personal-access-tokens-expire'' 60
     = ''Q&A: Where can I find the merged pull requests?...''"
  by (simp add: title_eval spec_title_def)

text \<open>
  Claim C10. With the default \<open>max_length\<close> every title is produced and has at most 68
  characters: the prefix of 5, at most 60 of the content and the ellipsis of 3.
\<close>

theorem title_length_bound:
  "\<exists>t. generate_title content TITLE_MAX_LENGTH = Inr t \<and> length t \<le> 68"
proof -
  let ?w = "slice_to content 60"
  have w: "length ?w \<le> 60" using length_slice_to [of 60 content] by simp
  have cut: "length (slice_to ?w k) \<le> 60" for k
    using w by (auto simp: slice_to_def)
  show ?thesis
    using w cut [of "rfind ?w CHR '' ''"]
    by (simp add: generate_title_def TITLE_MAX_LENGTH_def TITLE_PREFIX_def
        times_threshold_default Let_def)
qed

theorem title_length_bound_witness:
  "\<exists>t. generate_title ''Is there any way to share prompt files across repositories-without-copying-them-by-hand?''
          TITLE_MAX_LENGTH = Inr t \<and> length t \<le> 68"
  by (rule title_length_bound)

section \<open>Characters: codes and case\<close>

lemma code_inj: "code a = code b \<longleftrightarrow> a = b"
  by (simp add: code_def)

lemma code_less: "code c < 256"
  by (simp add: code_def)

lemma code_char_of: "n < 256 \<Longrightarrow> code (char_of n) = n"
  by (simp add: code_def)

lemma to_lower_code: "code (to_lower c) = (if is_upper c then code c + 32 else code c)"
  by (simp add: to_lower_def is_upper_def code_char_of)

lemma to_lower_eq_iff:
  "to_lower c = d \<longleftrightarrow> (if is_upper c then code c + 32 = code d else code c = code d)"
proof -
  have "to_lower c = d \<longleftrightarrow> code (to_lower c) = code d" by (simp add: code_inj)
  then show ?thesis by (simp add: to_lower_code)
qed

section \<open>Record selection: what is selected and when it raises\<close>

text \<open>On ASCII the upper-case form is that of the letters a to z.\<close>

lemma upper_char_ascii:
  "c < 128 \<Longrightarrow> upper_char c = (if 97 \<le> c \<and> c \<le> 122 then [c - 32] else [c])"
  by (simp add: upper_char_def upper_special_def upper_runs_def in_run_def)

lemma upper_char_dotless_i: "upper_char 305 = [73]"
  by (simp add: upper_char_def upper_special_def upper_runs_def in_run_def)

lemmas select_eval = filter_questions_def is_attendee_question_def get_def codes_def code_def
  upper_def upper_char_ascii upper_char_dotless_i

lemma filter_loop_acc:
  "filter_loop acc rows =
     (case filter_loop [] rows of Inl e \<Rightarrow> Inl e | Inr out \<Rightarrow> Inr (acc @ out))"
proof (induction rows arbitrary: acc)
  case Nil
  show ?case by simp
next
  case (Cons row rows)
  show ?case
  proof (cases "is_attendee_question row")
    case (Inl e)
    then show ?thesis by simp
  next
    case (Inr b)
    show ?thesis
      using Inr Cons.IH [of "acc @ [row]"] Cons.IH [of "[row]"] Cons.IH [of acc]
      by (cases "filter_loop [] rows") auto
  qed
qed

text \<open>
  On rows whose \<open>Source\<close> and \<open>Type\<close> are strings where they are present, the selector
  returns, in their order, the rows in which the upper-case form of the \<open>Source\<close> is
  ATTENDEE and that of the \<open>Type\<close> is QUESTION, a missing key read as the empty string.
\<close>

lemma is_attendee_question_strings:
  assumes "get row (codes ''Source'') (Str []) = Str s"
    and "get row (codes ''Type'') (Str []) = Str t"
  shows "is_attendee_question row =
    Inr (upper s = codes ''ATTENDEE'' \<and> upper t = codes ''QUESTION'')"
  using assms by (simp add: is_attendee_question_def)

lemma filter_questions_strings:
  assumes "\<forall>row\<in>set rows. \<exists>s t. get row (codes ''Source'') (Str []) = Str s \<and>
      get row (codes ''Type'') (Str []) = Str t"
  shows "filter_questions rows =
    Inr (filter (\<lambda>row. is_attendee_question row = Inr True) rows)"
  using assms unfolding filter_questions_def
proof (induction rows)
  case Nil
  show ?case by simp
next
  case (Cons row rows)
  from Cons.prems obtain s t where st: "get row (codes ''Source'') (Str []) = Str s"
    "get row (codes ''Type'') (Str []) = Str t" by auto
  have ih: "filter_loop [] rows = Inr (filter (\<lambda>row. is_attendee_question row = Inr True) rows)"
    using Cons by simp
  show ?case
    using is_attendee_question_strings [OF st] ih filter_loop_acc [of "[row]" rows]
    by simp
qed

text \<open>
  The upper-case form of the dotless i is the ASCII letter I: a \<open>Type\<close> written with it
  is selected.
\<close>

lemma dotless_i_selected:
  "is_attendee_question
     [Some (codes ''Source'') \<mapsto> Str (codes ''attendee''),
      Some (codes ''Type'') \<mapsto> Str [113, 117, 101, 115, 116, 305, 111, 110]] = Inr True"
  by (simp add: select_eval)

text \<open>A row that lacks the key \<open>Type\<close> is read with the default and is not selected.\<close>

lemma missing_key_not_selected:
  "filter_questions [[Some (codes ''Source'') \<mapsto> Str (codes ''Attendee'')]] = Inr []"
  by (simp add: select_eval)

text \<open>
  Claim C6. A field missing from a row is to count as the empty string, and the selector
  is never to raise. For a line with fewer fields than the header \<open>csv.DictReader\<close>
  stores \<open>None\<close> under the missing columns; \<open>row.get('Type', '')\<close> returns that
  \<open>None\<close> and not its default, and the call of \<open>upper\<close> on it raises
  \<open>AttributeError\<close>. The rows below are those of the lines \<open>Attendee,Question,How?,2\<close>
  and \<open>Attendee\<close> under the header \<open>Source,Type,Content,Reactions\<close>.
\<close>

theorem filter_questions_short_row:
  "filter_questions
     [[Some (codes ''Source'') \<mapsto> Str (codes ''Attendee''),
       Some (codes ''Type'') \<mapsto> Str (codes ''Question''),
       Some (codes ''Content'') \<mapsto> Str (codes ''How?''),
       Some (codes ''Reactions'') \<mapsto> Str (codes ''2'')],
      [Some (codes ''Source'') \<mapsto> Str (codes ''Attendee''),
       Some (codes ''Type'') \<mapsto> NoneVal,
       Some (codes ''Content'') \<mapsto> NoneVal,
       Some (codes ''Reactions'') \<mapsto> NoneVal]]
   = Inl AttributeError"
  by (simp add: select_eval)

section \<open>The sanitizer: trimming and the sentence end\<close>

lemma rstrip_last: "rstrip s \<noteq> [] \<Longrightarrow> \<not> is_space (last (rstrip s))"
proof -
  assume a: "rstrip s \<noteq> []"
  then have ne: "dropWhile is_space (rev s) \<noteq> []" by (simp add: rstrip_def)
  then have "\<not> is_space (hd (dropWhile is_space (rev s)))" by (rule hd_dropWhile)
  then show ?thesis using ne by (simp add: rstrip_def last_rev)
qed

lemma lstrip_hd: "lstrip s \<noteq> [] \<Longrightarrow> \<not> is_space (hd (lstrip s))"
  by (simp add: lstrip_def hd_dropWhile)

lemma rstrip_id: "s = [] \<or> \<not> is_space (last s) \<Longrightarrow> rstrip s = s"
  by (cases s rule: rev_cases) (auto simp: rstrip_def)

lemma lstrip_id: "s = [] \<or> \<not> is_space (hd s) \<Longrightarrow> lstrip s = s"
  by (cases s) (auto simp: lstrip_def)

lemma lstrip_last: "\<not> is_space (last s) \<Longrightarrow> s \<noteq> [] \<Longrightarrow> lstrip s \<noteq> [] \<and> last (lstrip s) = last s"
proof -
  assume a: "\<not> is_space (last s)" "s \<noteq> []"
  have s: "s = takeWhile is_space s @ dropWhile is_space s" by simp
  have "last s \<in> set s" using a by simp
  then have "\<exists>x\<in>set s. \<not> is_space x" using a by blast
  then have ne: "dropWhile is_space s \<noteq> []" by (simp add: dropWhile_eq_Nil_conv)
  then have "last s = last (dropWhile is_space s)"
    using s by (metis last_appendR)
  with ne show ?thesis by (simp add: lstrip_def)
qed

lemma lstrip_append: "\<not> is_space (last s) \<Longrightarrow> s \<noteq> [] \<Longrightarrow> lstrip (s @ t) = lstrip s @ t"
proof -
  assume a: "\<not> is_space (last s)" "s \<noteq> []"
  then have "last s \<in> set s" by simp
  then show ?thesis using a(1) by (simp add: lstrip_def dropWhile_append1)
qed

lemma rstrip_prefix: "\<exists>b. s = rstrip s @ b"
proof -
  have "s = rev (takeWhile is_space (rev s) @ dropWhile is_space (rev s))" by simp
  also have "\<dots> = rev (dropWhile is_space (rev s)) @ rev (takeWhile is_space (rev s))"
    by (rule rev_append)
  finally have "s = rstrip s @ rev (takeWhile is_space (rev s))"
    by (simp only: rstrip_def)
  then show ?thesis ..
qed

lemma trimmed_strip: "trimmed (strip s)"
proof (cases "strip s = []")
  case True
  then show ?thesis by (simp add: trimmed_def)
next
  case False
  obtain b where b: "lstrip s = strip s @ b" using rstrip_prefix [of "lstrip s"] by (auto simp: strip_def)
  then have ne: "lstrip s \<noteq> []" using False by auto
  have "hd (strip s) = hd (lstrip s)" using b False by (metis hd_append2)
  then have h: "\<not> is_space (hd (strip s))" using lstrip_hd [OF ne] by simp
  have l: "\<not> is_space (last (strip s))" using False rstrip_last by (simp add: strip_def)
  show ?thesis using h l by (simp add: trimmed_def)
qed

lemma strip_trimmed: "trimmed t \<Longrightarrow> strip t = t"
  by (auto simp: trimmed_def strip_def lstrip_id rstrip_id)

lemma strip_sentence_end:
  "strip (sentence_end x) =
     lstrip (rstrip x) @ (if rstrip x \<noteq> [] \<and> \<not> one_of ''.!?'' (last (rstrip x)) then ''.'' else [])"
proof (cases "rstrip x = []")
  case True
  then have "sentence_end x = []" by (simp add: sentence_end_def)
  moreover have "strip [] = []" by (simp add: strip_def lstrip_def rstrip_def)
  moreover have "lstrip [] = []" by (simp add: lstrip_def)
  ultimately show ?thesis using True by simp
next
  case False
  let ?r = "rstrip x"
  have l: "\<not> is_space (last ?r)" using False by (rule rstrip_last)
  have ll: "lstrip ?r \<noteq> [] \<and> last (lstrip ?r) = last ?r" using l False by (rule lstrip_last)
  show ?thesis
  proof (cases "one_of ''.!?'' (last ?r)")
    case True
    then have "sentence_end x = ?r" by (simp add: sentence_end_def)
    moreover have "rstrip (lstrip ?r) = lstrip ?r" using ll l by (simp add: rstrip_id)
    ultimately show ?thesis using True by (simp add: strip_def)
  next
    case False
    then have "sentence_end x = ?r @ ''.''" using \<open>?r \<noteq> []\<close> by (simp add: sentence_end_def Let_def)
    moreover have "lstrip (?r @ ''.'') = lstrip ?r @ ''.''" using l \<open>?r \<noteq> []\<close> by (rule lstrip_append)
    moreover have "rstrip (lstrip ?r @ ''.'') = lstrip ?r @ ''.''"
      by (rule rstrip_id) (simp add: is_space_def code_def)
    ultimately show ?thesis using False \<open>?r \<noteq> []\<close> by (simp add: strip_def)
  qed
qed

lemma sanitize_content_shape:
  "sanitize_content x =
     lstrip (rstrip (inline_stage (line_stage (redact_emails x)))) @
       (if rstrip (inline_stage (line_stage (redact_emails x))) \<noteq> [] \<and>
           \<not> one_of ''.!?'' (last (rstrip (inline_stage (line_stage (redact_emails x)))))
        then ''.'' else []) \<and>
   strip (sanitize_content x) = sanitize_content x \<and>
   (sanitize_content x \<noteq> [] \<longrightarrow> one_of ''.!?'' (last (sanitize_content x)))"
proof -
  let ?r = "rstrip (inline_stage (line_stage (redact_emails x)))"
  have rsl: "remove_signature_lines (redact_emails x) =
      lstrip ?r @ (if ?r \<noteq> [] \<and> \<not> one_of ''.!?'' (last ?r) then ''.'' else [])"
    by (simp only: remove_signature_lines_def strip_sentence_end)
  have tr: "trimmed (remove_signature_lines (redact_emails x))"
    unfolding remove_signature_lines_def by (rule trimmed_strip)
  have eq: "sanitize_content x = remove_signature_lines (redact_emails x)"
    unfolding sanitize_content_def using tr by (rule strip_trimmed)
  have one: "sanitize_content x =
      lstrip ?r @ (if ?r \<noteq> [] \<and> \<not> one_of ''.!?'' (last ?r) then ''.'' else [])"
    using eq rsl by simp
  have two: "strip (sanitize_content x) = sanitize_content x"
    using tr eq by (simp add: strip_trimmed)
  have three: "one_of ''.!?'' (last (sanitize_content x))" if ne: "sanitize_content x \<noteq> []"
  proof (cases "?r = []")
    case True
    then show ?thesis using one ne by (simp add: lstrip_def)
  next
    case False
    have l: "\<not> is_space (last ?r)" using False by (rule rstrip_last)
    have ll: "lstrip ?r \<noteq> [] \<and> last (lstrip ?r) = last ?r" using l False by (rule lstrip_last)
    show ?thesis using one ll False by (auto simp: one_of_def)
  qed
  show ?thesis using one two three by blast
qed



section \<open>The matcher: where a match can end\<close>

lemma in_ms_Sym:
  "(l', s') \<in> set (ms (Sym P) (l, s)) \<longleftrightarrow> (\<exists>c. s = c # s' \<and> l' = c # l \<and> P c)"
  by (cases s) auto

lemma in_ms_Cat:
  "q \<in> set (ms (Cat a b) p) \<longleftrightarrow> (\<exists>l1 s1. (l1, s1) \<in> set (ms a p) \<and> q \<in> set (ms b (l1, s1)))"
  by auto

lemma in_ms_Or: "q \<in> set (ms (Or a b) p) \<longleftrightarrow> q \<in> set (ms a p) \<or> q \<in> set (ms b p)"
  by simp

lemma in_ms_Empty: "q \<in> set (ms Empty p) \<longleftrightarrow> q = p"
  by auto

lemma in_ms_WordB:
  "(l', s') \<in> set (ms WordB (l, s)) \<longleftrightarrow> l' = l \<and> s' = s \<and> word_at l \<noteq> word_at s"
  by auto

lemma in_ms_Bos: "(l', s') \<in> set (ms Bos (l, s)) \<longleftrightarrow> l' = l \<and> s' = s \<and> l = []"
  by auto

lemma in_ms_Eos:
  "(l', s') \<in> set (ms Eos (l, s)) \<longleftrightarrow> l' = l \<and> s' = s \<and> (s = [] \<or> s = [newline])"
  by auto

lemma ms_Star_Sym_unfold:
  "ms (Star (Sym P)) (l, s) =
     (case s of [] \<Rightarrow> [(l, s)]
      | c # cs \<Rightarrow> if P c then ms (Star (Sym P)) (c # l, cs) @ [(l, s)] else [(l, s)])"
  by (cases s) auto

declare ms.simps(8) [simp del]

lemma in_ms_Star_Sym:
  "(l', s') \<in> set (ms (Star (Sym P)) (l, s)) \<longleftrightarrow>
     (\<exists>m. s = m @ s' \<and> l' = rev m @ l \<and> (\<forall>c\<in>set m. P c))"
proof (induction s arbitrary: l)
  case Nil
  show ?case by (subst ms_Star_Sym_unfold) auto
next
  case (Cons c cs)
  show ?case
  proof (cases "P c")
    case True
    have "(l', s') \<in> set (ms (Star (Sym P)) (l, c # cs)) \<longleftrightarrow>
        (l', s') \<in> set (ms (Star (Sym P)) (c # l, cs)) \<or> (l' = l \<and> s' = c # cs)"
      using True by (subst ms_Star_Sym_unfold) auto
    also have "\<dots> \<longleftrightarrow> (\<exists>m. cs = m @ s' \<and> l' = rev m @ c # l \<and> (\<forall>c\<in>set m. P c)) \<or>
        (l' = l \<and> s' = c # cs)"
      by (simp only: Cons.IH)
    also have "\<dots> \<longleftrightarrow> (\<exists>m. c # cs = m @ s' \<and> l' = rev m @ l \<and> (\<forall>c\<in>set m. P c))"
      (is "?A \<longleftrightarrow> ?B")
    proof
      assume ?A
      then show ?B
      proof
        assume "\<exists>m. cs = m @ s' \<and> l' = rev m @ c # l \<and> (\<forall>c\<in>set m. P c)"
        then obtain m where "cs = m @ s'" "l' = rev m @ c # l" "\<forall>c\<in>set m. P c" by blast
        then have "c # cs = (c # m) @ s' \<and> l' = rev (c # m) @ l \<and> (\<forall>x\<in>set (c # m). P x)"
          using True by simp
        then show ?B by blast
      next
        assume "l' = l \<and> s' = c # cs"
        then have "c # cs = [] @ s' \<and> l' = rev [] @ l \<and> (\<forall>x\<in>set []. P x)" by simp
        then show ?B by blast
      qed
    next
      assume ?B
      then obtain m where m: "c # cs = m @ s'" "l' = rev m @ l" "\<forall>c\<in>set m. P c" by blast
      show ?A
      proof (cases m)
        case Nil
        then show ?thesis using m by simp
      next
        case (Cons d m')
        then have "cs = m' @ s' \<and> l' = rev m' @ c # l \<and> (\<forall>c\<in>set m'. P c)" using m by simp
        then show ?thesis by blast
      qed
    qed
    finally show ?thesis .
  next
    case False
    have "(l', s') \<in> set (ms (Star (Sym P)) (l, c # cs)) \<longleftrightarrow> (l' = l \<and> s' = c # cs)"
      using False by (subst ms_Star_Sym_unfold) auto
    also have "\<dots> \<longleftrightarrow> (\<exists>m. c # cs = m @ s' \<and> l' = rev m @ l \<and> (\<forall>c\<in>set m. P c))"
      (is "?A \<longleftrightarrow> ?B")
    proof
      assume ?A
      then have "c # cs = [] @ s' \<and> l' = rev [] @ l \<and> (\<forall>x\<in>set []. P x)" by simp
      then show ?B by blast
    next
      assume ?B
      then obtain m where m: "c # cs = m @ s'" "l' = rev m @ l" "\<forall>c\<in>set m. P c" by blast
      show ?A
      proof (cases m)
        case Nil
        then show ?thesis using m by simp
      next
        case (Cons d m')
        then have "d = c" "P d" using m by auto
        then show ?thesis using False by simp
      qed
    qed
    finally show ?thesis .
  qed
qed

lemma in_ms_plus_Sym:
  "(l', s') \<in> set (ms (plus (Sym P)) (l, s)) \<longleftrightarrow>
     (\<exists>m. s = m @ s' \<and> l' = rev m @ l \<and> m \<noteq> [] \<and> (\<forall>c\<in>set m. P c))"
  (is "?L \<longleftrightarrow> ?R")
proof
  assume ?L
  then obtain c m where "s = c # m @ s'" "l' = rev m @ c # l" "P c" "\<forall>c\<in>set m. P c"
    unfolding plus_def in_ms_Cat in_ms_Sym in_ms_Star_Sym by blast
  then have "s = (c # m) @ s' \<and> l' = rev (c # m) @ l \<and> c # m \<noteq> [] \<and> (\<forall>x\<in>set (c # m). P x)"
    by simp
  then show ?R by blast
next
  assume ?R
  then obtain m where m: "s = m @ s'" "l' = rev m @ l" "m \<noteq> []" "\<forall>c\<in>set m. P c" by blast
  then obtain c m' where c: "m = c # m'" by (cases m) auto
  then have "s = c # m' @ s'" "l' = rev m' @ c # l" "P c" "\<forall>c\<in>set m'. P c" using m by auto
  then show ?L unfolding plus_def in_ms_Cat in_ms_Sym in_ms_Star_Sym by blast
qed

lemma in_ms_at_least2_Sym:
  "(l', s') \<in> set (ms (at_least2 (Sym P)) (l, s)) \<longleftrightarrow>
     (\<exists>m. s = m @ s' \<and> l' = rev m @ l \<and> 2 \<le> length m \<and> (\<forall>c\<in>set m. P c))"
  (is "?L \<longleftrightarrow> ?R")
proof
  assume ?L
  then obtain c d m where "s = c # d # m @ s'" "l' = rev m @ d # c # l" "P c" "P d" "\<forall>c\<in>set m. P c"
    unfolding at_least2_def in_ms_Cat in_ms_Sym in_ms_Star_Sym by blast
  then have "s = (c # d # m) @ s' \<and> l' = rev (c # d # m) @ l \<and> 2 \<le> length (c # d # m) \<and>
      (\<forall>x\<in>set (c # d # m). P x)"
    by simp
  then show ?R by blast
next
  assume ?R
  then obtain m where m: "s = m @ s'" "l' = rev m @ l" "2 \<le> length m" "\<forall>c\<in>set m. P c" by blast
  then obtain c d m' where c: "m = c # d # m'" by (cases m; cases "tl m") auto
  then have "s = c # d # m' @ s'" "l' = rev m' @ d # c # l" "P c" "P d" "\<forall>c\<in>set m'. P c"
    using m by auto
  then show ?L unfolding at_least2_def in_ms_Cat in_ms_Sym in_ms_Star_Sym by blast
qed

lemma in_ms_chr:
  "(l', s') \<in> set (ms (chr c) (l, s)) \<longleftrightarrow> s = c # s' \<and> l' = c # l"
  by (auto simp: chr_def in_ms_Sym)

lemma in_ms_seq_Nil: "q \<in> set (ms (seq []) p) \<longleftrightarrow> q = p"
  by (simp add: seq_def)

lemma in_ms_seq_Cons:
  "q \<in> set (ms (seq (r # rs)) p) \<longleftrightarrow>
     (\<exists>l1 s1. (l1, s1) \<in> set (ms r p) \<and> q \<in> set (ms (seq rs) (l1, s1)))"
  by (auto simp: seq_def)

subsection \<open>Literals, alternatives and options\<close>

lemma in_ms_chr_i:
  "(l', s') \<in> set (ms (chr_i c) (l, s)) \<longleftrightarrow>
     (\<exists>x. s = x # s' \<and> l' = x # l \<and> to_lower x = to_lower c)"
  by (auto simp: chr_i_def in_ms_Sym)

lemma lit_i_Nil: "lit_i [] = Empty"
  by (simp add: lit_i_def seq_def)

lemma lit_i_Cons: "lit_i (c # k) = Cat (chr_i c) (lit_i k)"
  by (simp add: lit_i_def seq_def)

lemma in_ms_lit_i:
  "(l', s') \<in> set (ms (lit_i k) (l, s)) \<longleftrightarrow>
     (\<exists>m. s = m @ s' \<and> l' = rev m @ l \<and> map to_lower m = map to_lower k)"
proof (induction k arbitrary: l s)
  case Nil
  show ?case by (auto simp: lit_i_Nil)
next
  case (Cons c k)
  show ?case (is "?L \<longleftrightarrow> ?R")
  proof
    assume ?L
    then obtain x m where "s = x # m @ s'" "l' = rev m @ x # l" "to_lower x = to_lower c"
      "map to_lower m = map to_lower k"
      unfolding lit_i_Cons in_ms_Cat in_ms_chr_i Cons.IH by blast
    then have "s = (x # m) @ s' \<and> l' = rev (x # m) @ l \<and>
        map to_lower (x # m) = map to_lower (c # k)" by simp
    then show ?R by blast
  next
    assume ?R
    then obtain m where m: "s = m @ s'" "l' = rev m @ l" "map to_lower m = map to_lower (c # k)"
      by blast
    then obtain x m' where x: "m = x # m'" by (cases m) auto
    then have "s = x # m' @ s'" "l' = rev m' @ x # l" "to_lower x = to_lower c"
      "map to_lower m' = map to_lower k" using m by auto
    then show ?L unfolding lit_i_Cons in_ms_Cat in_ms_chr_i Cons.IH by blast
  qed
qed

lemma in_ms_alts: "q \<in> set (ms (alts rs) p) \<longleftrightarrow> (\<exists>r\<in>set rs. q \<in> set (ms r p))"
proof (induction rs rule: alts.induct)
  case 1
  show ?case by (cases p) (simp add: in_ms_Sym)
next
  case (2 r)
  show ?case by simp
next
  case (3 r v va)
  then show ?case by (simp add: in_ms_Or)
qed

lemma in_ms_opt: "q \<in> set (ms (opt r) p) \<longleftrightarrow> q \<in> set (ms r p) \<or> q = p"
  by (auto simp: opt_def)

lemma ms_consumes:
  "q \<in> set (ms r p) \<Longrightarrow> \<exists>m. snd p = m @ snd q \<and> fst q = rev m @ fst p"
proof (induction r p arbitrary: q rule: ms.induct)
  case (1 P l r)
  then show ?case by (cases r) (auto split: if_splits)
next
  case (6 a b p)
  from "6.prems" obtain q' where q': "q' \<in> set (ms a p)" "q \<in> set (ms b q')" by auto
  from "6.IH"(1) [OF q'(1)] obtain m1 where m1: "snd p = m1 @ snd q'" "fst q' = rev m1 @ fst p"
    by blast
  from "6.IH"(2) [OF q'(1) q'(2)] obtain m2 where m2: "snd q' = m2 @ snd q" "fst q = rev m2 @ fst q'"
    by blast
  have "snd p = (m1 @ m2) @ snd q \<and> fst q = rev (m1 @ m2) @ fst p" using m1 m2 by simp
  then show ?case by blast
next
  case (8 a p)
  from "8.prems" have "q = p \<or> (\<exists>q'\<in>set (ms a p). length (snd q') < length (snd p) \<and>
      q \<in> set (ms (Star a) q'))"
    by (subst (asm) ms.simps(8)) (auto split: if_splits)
  then show ?case
  proof
    assume "q = p"
    then show ?thesis by simp
  next
    assume "\<exists>q'\<in>set (ms a p). length (snd q') < length (snd p) \<and> q \<in> set (ms (Star a) q')"
    then obtain q' where q': "q' \<in> set (ms a p)" "length (snd q') < length (snd p)"
      "q \<in> set (ms (Star a) q')" by blast
    from "8.IH"(1) [OF q'(1)] obtain m1 where m1: "snd p = m1 @ snd q'" "fst q' = rev m1 @ fst p"
      by blast
    from "8.IH"(2) [OF q'(1) q'(2) q'(3)] obtain m2 where
      m2: "snd q' = m2 @ snd q" "fst q = rev m2 @ fst q'" by blast
    have "snd p = (m1 @ m2) @ snd q \<and> fst q = rev (m1 @ m2) @ fst p" using m1 m2 by simp
    then show ?thesis by blast
  qed
qed (auto split: if_splits)

section \<open>Line-based signature removal\<close>

lemma is_space_to_lower: "is_space (to_lower c) \<longleftrightarrow> is_space c"
  by (auto simp: is_space_def to_lower_code is_upper_def)

lemma to_lower_colon: "to_lower x = to_lower CHR '':'' \<longleftrightarrow> x = CHR '':''"
proof -
  have "to_lower x = to_lower CHR '':'' \<longleftrightarrow> code (to_lower x) = code (to_lower CHR '':'')"
    by (simp add: code_inj)
  also have "\<dots> \<longleftrightarrow> code x = code CHR '':''"
    by (auto simp: to_lower_code is_upper_def) (simp_all add: code_def)
  finally show ?thesis by (simp add: code_inj)
qed

lemma lstrip_spaces_append:
  assumes "\<forall>x\<in>set ws. is_space x" and "r = [] \<or> \<not> is_space (hd r)"
  shows "lstrip (ws @ r) = r"
proof -
  have "dropWhile is_space (ws @ r) = dropWhile is_space r"
    using assms(1) by (simp add: dropWhile_append2)
  also have "\<dots> = r" using assms(2) by (cases r) auto
  finally show ?thesis by (simp add: lstrip_def)
qed

lemma lstrip_split: "\<exists>ws. line = ws @ lstrip line \<and> (\<forall>x\<in>set ws. is_space x)"
proof -
  have "line = takeWhile is_space line @ lstrip line" by (simp add: lstrip_def)
  moreover have "\<forall>x\<in>set (takeWhile is_space line). is_space x"
    using set_takeWhileD by fastforce
  ultimately show ?thesis by blast
qed

lemma ci_hd_space:
  assumes "map to_lower kw = map to_lower k" and "k \<noteq> []" and "\<not> is_space (hd k)"
  shows "kw \<noteq> [] \<and> \<not> is_space (hd kw)"
proof -
  from assms(1,2) obtain x kw' y k' where "kw = x # kw'" "k = y # k'" "to_lower x = to_lower y"
    by (cases kw; cases k) auto
  then show ?thesis using assms(3) is_space_to_lower [of x] is_space_to_lower [of y] by simp
qed

lemma keyword_line_matches:
  "ms (keyword_line k) ([], line) \<noteq> [] \<longleftrightarrow>
     (\<exists>ws kw c rest. line = ws @ kw @ c # rest \<and> (\<forall>x\<in>set ws. is_space x) \<and>
        map to_lower kw = map to_lower k \<and> space_or_comma c)"
  (is "?L \<longleftrightarrow> ?R")
proof
  assume ?L
  then obtain l' s' where "(l', s') \<in> set (ms (keyword_line k) ([], line))"
    by (cases "ms (keyword_line k) ([], line)") auto
  then obtain ws kw c where "line = ws @ kw @ c # s'" "\<forall>x\<in>set ws. is_space x"
    "map to_lower kw = map to_lower k" "space_or_comma c"
    unfolding keyword_line_def in_ms_seq_Cons in_ms_seq_Nil in_ms_Bos in_ms_Star_Sym in_ms_lit_i
      in_ms_Sym
    by auto
  then show ?R by blast
next
  assume ?R
  then obtain ws kw c rest where r: "line = ws @ kw @ c # rest" "\<forall>x\<in>set ws. is_space x"
    "map to_lower kw = map to_lower k" "space_or_comma c" by blast
  have "(c # rev kw @ rev ws, rest) \<in> set (ms (keyword_line k) ([], line))"
    unfolding keyword_line_def in_ms_seq_Cons in_ms_seq_Nil in_ms_Bos in_ms_Star_Sym in_ms_lit_i
      in_ms_Sym
    using r by auto
  then show ?L by auto
qed

lemma ms_seq_I:
  "(l1, s1) \<in> set (ms r p) \<Longrightarrow> q \<in> set (ms (seq rs) (l1, s1)) \<Longrightarrow> q \<in> set (ms (seq (r # rs)) p)"
  using in_ms_seq_Cons by blast

lemma ms_seq_Nil_I: "p \<in> set (ms (seq []) p)"
  by (simp add: in_ms_seq_Nil)

lemma header_line_matches:
  "ms (header_line k) ([], line) \<noteq> [] \<longleftrightarrow>
     (\<exists>ws kw ws2 rest. line = ws @ kw @ ws2 @ CHR '':'' # rest \<and> (\<forall>x\<in>set ws. is_space x) \<and>
        map to_lower kw = map to_lower k \<and> (\<forall>x\<in>set ws2. is_space x))"
  (is "?L \<longleftrightarrow> ?R")
proof
  assume ?L
  then obtain l' s' where "(l', s') \<in> set (ms (header_line k) ([], line))"
    by (cases "ms (header_line k) ([], line)") auto
  then obtain ws kw ws2 where "line = ws @ kw @ ws2 @ CHR '':'' # s'" "\<forall>x\<in>set ws. is_space x"
    "map to_lower kw = map to_lower k" "\<forall>x\<in>set ws2. is_space x"
    unfolding header_line_def in_ms_seq_Cons in_ms_seq_Nil in_ms_Bos in_ms_Star_Sym in_ms_lit_i
      in_ms_chr_i to_lower_colon
    by auto
  then show ?R by blast
next
  assume ?R
  then obtain ws kw ws2 rest where r: "line = ws @ kw @ ws2 @ CHR '':'' # rest"
    "\<forall>x\<in>set ws. is_space x" "map to_lower kw = map to_lower k" "\<forall>x\<in>set ws2. is_space x"
    by blast
  have 1: "(rev ws, kw @ ws2 @ CHR '':'' # rest) \<in> set (ms (Star (Sym is_space)) ([], line))"
    unfolding in_ms_Star_Sym using r(1,2) by auto
  have 2: "(rev kw @ rev ws, ws2 @ CHR '':'' # rest)
      \<in> set (ms (lit_i k) (rev ws, kw @ ws2 @ CHR '':'' # rest))"
    unfolding in_ms_lit_i using r(3) by auto
  have 3: "(rev ws2 @ rev kw @ rev ws, CHR '':'' # rest)
      \<in> set (ms (Star (Sym is_space)) (rev kw @ rev ws, ws2 @ CHR '':'' # rest))"
    unfolding in_ms_Star_Sym using r(4) by auto
  have 4: "(CHR '':'' # rev ws2 @ rev kw @ rev ws, rest)
      \<in> set (ms (chr_i CHR '':'') (rev ws2 @ rev kw @ rev ws, CHR '':'' # rest))"
    unfolding in_ms_chr_i by simp
  have "(CHR '':'' # rev ws2 @ rev kw @ rev ws, rest) \<in> set (ms (header_line k) ([], line))"
    unfolding header_line_def
    by (rule ms_seq_I [of "[]" line], simp, rule ms_seq_I [OF 1], rule ms_seq_I [OF 2],
        rule ms_seq_I [OF 3], rule ms_seq_I [OF 4], rule ms_seq_Nil_I)
  then show ?L by auto
qed

lemma ci_starts_iff:
  "ci_starts k r \<longleftrightarrow> (\<exists>kw rest. r = kw @ rest \<and> map to_lower kw = map to_lower k)"
  (is "?L \<longleftrightarrow> ?R")
proof
  assume ?L
  then have "r = take (length k) r @ drop (length k) r \<and>
      map to_lower (take (length k) r) = map to_lower k"
    by (simp add: ci_starts_def ci_equal_def)
  then show ?R by blast
next
  assume ?R
  then obtain kw rest where r: "r = kw @ rest" "map to_lower kw = map to_lower k" by blast
  then have "length kw = length k" using map_eq_imp_length_eq by blast
  then show ?L using r by (simp add: ci_starts_def ci_equal_def)
qed

lemma keyword_cue_iff:
  assumes "k \<noteq> []" and "\<not> is_space (hd k)"
  shows "ms (keyword_line k) ([], line) \<noteq> [] \<longleftrightarrow> keyword_cue k line"
  (is "?L \<longleftrightarrow> ?R")
proof
  assume ?L
  then obtain ws kw c rest where r: "line = ws @ kw @ c # rest" "\<forall>x\<in>set ws. is_space x"
    "map to_lower kw = map to_lower k" "space_or_comma c"
    unfolding keyword_line_matches by blast
  have kw: "kw \<noteq> [] \<and> \<not> is_space (hd kw)" using ci_hd_space [OF r(3) assms] .
  have ls: "lstrip line = kw @ c # rest"
    unfolding r(1) using r(2) kw by (intro lstrip_spaces_append) auto
  have len: "length kw = length k" using r(3) map_eq_imp_length_eq by blast
  show ?R using r(3,4) len by (simp add: keyword_cue_def ls ci_starts_def ci_equal_def)
next
  assume ?R
  let ?r = "lstrip line"
  from \<open>?R\<close> have cs: "ci_starts k ?r" and
    dr: "(case drop (length k) ?r of [] \<Rightarrow> False | c # _ \<Rightarrow> space_or_comma c)"
    by (simp_all add: keyword_cue_def Let_def)
  from dr obtain c rest where d: "drop (length k) ?r = c # rest" "space_or_comma c"
    by (cases "drop (length k) ?r") auto
  obtain ws where ws: "line = ws @ ?r" "\<forall>x\<in>set ws. is_space x" using lstrip_split by blast
  have "?r = take (length k) ?r @ c # rest" using d(1) by (metis append_take_drop_id)
  then have "line = ws @ take (length k) ?r @ c # rest" using ws(1) by simp
  moreover have "map to_lower (take (length k) ?r) = map to_lower k"
    using cs by (simp add: ci_starts_def ci_equal_def)
  ultimately show ?L unfolding keyword_line_matches using ws(2) d(2) by blast
qed

lemma header_cue_iff:
  assumes "k \<noteq> []" and "\<not> is_space (hd k)"
  shows "ms (header_line k) ([], line) \<noteq> [] \<longleftrightarrow> header_cue k line"
  (is "?L \<longleftrightarrow> ?R")
proof
  assume ?L
  then obtain ws kw ws2 rest where r: "line = ws @ kw @ ws2 @ CHR '':'' # rest"
    "\<forall>x\<in>set ws. is_space x" "map to_lower kw = map to_lower k" "\<forall>x\<in>set ws2. is_space x"
    unfolding header_line_matches by blast
  have kw: "kw \<noteq> [] \<and> \<not> is_space (hd kw)" using ci_hd_space [OF r(3) assms] .
  have ls: "lstrip line = kw @ ws2 @ CHR '':'' # rest"
    unfolding r(1) using r(2) kw by (intro lstrip_spaces_append) auto
  have len: "length kw = length k" using r(3) map_eq_imp_length_eq by blast
  have "lstrip (ws2 @ CHR '':'' # rest) = CHR '':'' # rest"
    using r(4) by (intro lstrip_spaces_append) (auto simp: is_space_def code_def)
  then show ?R using r(3) len by (simp add: header_cue_def ls ci_starts_def ci_equal_def)
next
  assume ?R
  let ?r = "lstrip line"
  let ?d = "drop (length k) ?r"
  from \<open>?R\<close> have cs: "ci_starts k ?r" and
    dr: "(case lstrip ?d of [] \<Rightarrow> False | c # _ \<Rightarrow> c = CHR '':'')"
    by (simp_all add: header_cue_def Let_def)
  from dr obtain rest where d: "lstrip ?d = CHR '':'' # rest"
    by (cases "lstrip ?d") auto
  obtain ws where ws: "line = ws @ ?r" "\<forall>x\<in>set ws. is_space x" using lstrip_split by blast
  obtain ws2 where ws2: "?d = ws2 @ lstrip ?d" "\<forall>x\<in>set ws2. is_space x"
    using lstrip_split by blast
  from ws2(1) have dd: "?d = ws2 @ CHR '':'' # rest" unfolding d .
  have "?r = take (length k) ?r @ ?d" by simp
  then have "?r = take (length k) ?r @ ws2 @ CHR '':'' # rest" unfolding dd .
  then have "line = ws @ take (length k) ?r @ ws2 @ CHR '':'' # rest" using ws(1) by simp
  moreover have "map to_lower (take (length k) ?r) = map to_lower k"
    using cs by (simp add: ci_starts_def ci_equal_def)
  ultimately show ?L unfolding header_line_matches using ws(2) ws2(2) by blast
qed

lemma re_match_None_iff: "re_match r s \<noteq> None \<longleftrightarrow> ms r ([], s) \<noteq> []"
  by (simp add: re_match_def split: list.splits)

lemma is_signature_iff: "is_signature line \<longleftrightarrow> signature_cue line"
proof -
  have sp: "\<not> is_space CHR ''t''" "\<not> is_space CHR ''r''" "\<not> is_space CHR ''b''"
    "\<not> is_space CHR ''c''" "\<not> is_space CHR ''s''" "\<not> is_space CHR ''f''"
    by (simp_all add: is_space_def code_def)
  show ?thesis
    by (simp add: is_signature_def signature_patterns_def re_match_None_iff signature_cue_def
        line_keywords_def header_keywords_def keyword_cue_iff header_cue_iff sp
        del: not_None_eq)
qed

lemma scan_lines_found: "scan_lines True acc ls = acc"
  by (induction ls) auto

lemma scan_lines_takeWhile:
  "scan_lines False acc ls = acc @ takeWhile (\<lambda>l. \<not> signature_cue l) ls"
  by (induction ls arbitrary: acc) (auto simp: scan_lines_found is_signature_iff)

lemma split_lines_nonempty: "split_lines s \<noteq> []"
  by (induction s) (auto split: list.splits)

lemma join_split_lines: "join_lines (split_lines s) = s"
proof (induction s)
  case Nil
  show ?case by simp
next
  case (Cons c cs)
  obtain l ls where s: "split_lines cs = l # ls"
    using split_lines_nonempty [of cs] by (cases "split_lines cs") auto
  show ?case using Cons s by (cases ls) auto
qed

text \<open>
  The loop keeps the lines before the first line that matches one of the twelve patterns
  and drops that line and every line after it; the kept lines are joined with newlines
  again and the result is stripped. A line matches when, after optional leading
  whitespace, it begins with one of the six keywords in any case directly followed by a
  whitespace character or a comma, or with one of the six header words, optional
  whitespace and a colon.
\<close>

lemma line_stage_takeWhile:
  "scan_lines False [] ls = takeWhile (\<lambda>l. \<not> signature_cue l) ls \<and>
   line_stage s =
     strip (join_lines (takeWhile (\<lambda>l. \<not> signature_cue l) (split_lines s))) \<and>
   join_lines (split_lines s) = s"
  by (simp add: line_stage_def scan_lines_takeWhile join_split_lines)

text \<open>
  Claim C2. A closing line that holds the keyword and nothing else is a cue of the claim
  and of the docstring (the comma after the keyword is optional), and the names after it
  are to be removed. Each keyword pattern ends in the class \<open>[\s,]\<close>, which needs one
  more character on the line: the bare line is not found, and the sanitizer publishes the
  names below it. With a comma after the keyword the same text is cut, and with a single
  line after the bare keyword the inline trim takes the newline for the separator and
  cuts as well.
\<close>

theorem bare_keyword_line_published:
  "spec_signature_cue ''Thanks'' \<and> \<not> is_signature ''Thanks'' \<and>
   line_stage ''Hello\<newline>Thanks\<newline>John Smith\<newline>Acme Corp'' =
     ''Hello\<newline>Thanks\<newline>John Smith\<newline>Acme Corp'' \<and>
   sanitize_content ''Hello\<newline>Thanks\<newline>John Smith\<newline>Acme Corp'' =
     ''Hello\<newline>Thanks\<newline>John Smith\<newline>Acme Corp.'' \<and>
   sanitize_content ''Hello\<newline>Thanks,\<newline>John Smith\<newline>Acme Corp'' = ''Hello.'' \<and>
   sanitize_content ''Hello\<newline>Thanks\<newline>John Smith'' = ''Hello.''"
  by code_simp

section \<open>Email redaction: matches and the scan\<close>


lemma word_at_append: "m \<noteq> [] \<Longrightarrow> word_at (m @ r) = word_at m"
  by (cases m) (auto simp: word_at_def)

lemma word_at_rev: "m \<noteq> [] \<Longrightarrow> word_at (rev m) = is_word (last m)"
  by (cases m rule: rev_cases) (auto simp: word_at_def)

lemma shaped_nonempty: "shaped tld m \<Longrightarrow> m \<noteq> []"
  by (auto simp: shaped_def)

lemma in_ms_email:
  "(l', s') \<in> set (ms email_pattern (l, s)) \<longleftrightarrow>
     (\<exists>m. s = m @ s' \<and> l' = rev m @ l \<and> email_at tld_class (word_at l) m s')"
  (is "?L \<longleftrightarrow> ?R")
proof
  assume ?L
  then obtain lp dm tl where d: "s = lp @ CHR ''@'' # dm @ CHR ''.'' # tl @ s'"
    "l' = rev tl @ CHR ''.'' # rev dm @ CHR ''@'' # rev lp @ l"
    "lp \<noteq> []" "\<forall>c\<in>set lp. local_class c" "dm \<noteq> []" "\<forall>c\<in>set dm. domain_class c"
    "2 \<le> length tl" "\<forall>c\<in>set tl. tld_class c"
    "word_at l \<noteq> word_at s" "word_at l' \<noteq> word_at s'"
    unfolding email_pattern_def in_ms_seq_Cons in_ms_seq_Nil in_ms_WordB in_ms_plus_Sym
      in_ms_chr in_ms_at_least2_Sym
    by auto
  let ?m = "lp @ CHR ''@'' # dm @ CHR ''.'' # tl"
  have sh: "shaped tld_class ?m" unfolding shaped_def using d(3-8) by blast
  have ne: "?m \<noteq> []" by simp
  have tl: "tl \<noteq> []" using d(7) by auto
  have w1: "word_at s = word_at ?m" using d(1) word_at_append [OF ne, of s'] by simp
  have "l' = rev tl @ (CHR ''.'' # rev dm @ CHR ''@'' # rev lp @ l)" using d(2) by simp
  then have w2: "word_at l' = word_at (rev tl)" using tl word_at_append [of "rev tl"] by simp
  have "rev ?m = rev tl @ (CHR ''.'' # rev dm @ CHR ''@'' # rev lp)" by simp
  then have w3: "word_at (rev ?m) = word_at (rev tl)" using tl word_at_append [of "rev tl"] by simp
  have "email_at tld_class (word_at l) ?m s'"
    unfolding email_at_def using sh d(9,10) w1 w2 w3 by simp
  moreover have "s = ?m @ s'" using d(1) by simp
  moreover have "l' = rev ?m @ l" using d(2) by simp
  ultimately show ?R by blast
next
  assume ?R
  then obtain m where m: "s = m @ s'" "l' = rev m @ l" "email_at tld_class (word_at l) m s'"
    by blast
  from m(3) obtain lp dm tl where d: "m = lp @ CHR ''@'' # dm @ CHR ''.'' # tl"
    "lp \<noteq> []" "\<forall>c\<in>set lp. local_class c" "dm \<noteq> []" "\<forall>c\<in>set dm. domain_class c"
    "2 \<le> length tl" "\<forall>c\<in>set tl. tld_class c"
    unfolding email_at_def shaped_def by blast
  have ne: "m \<noteq> []" using d(1) by simp
  have tl: "tl \<noteq> []" using d(6) by auto
  have b1: "word_at l \<noteq> word_at s"
    using m(3) m(1) word_at_append [OF ne, of s'] by (simp add: email_at_def)
  have "rev m = rev tl @ (CHR ''.'' # rev dm @ CHR ''@'' # rev lp)" using d(1) by simp
  then have w3: "word_at (rev m) = word_at (rev tl)" using tl word_at_append [of "rev tl"] by simp
  have "l' = rev tl @ (CHR ''.'' # rev dm @ CHR ''@'' # rev lp @ l)" using m(2) d(1) by simp
  then have w2: "word_at l' = word_at (rev tl)" using tl word_at_append [of "rev tl"] by simp
  have b2: "word_at l' \<noteq> word_at s'" using m(3) w2 w3 by (simp add: email_at_def)
  let ?s1 = "CHR ''@'' # dm @ CHR ''.'' # tl @ s'"
  let ?s2 = "dm @ CHR ''.'' # tl @ s'"
  let ?s3 = "CHR ''.'' # tl @ s'"
  let ?s4 = "tl @ s'"
  have 0: "(l, s) \<in> set (ms WordB (l, s))" using b1 by (simp add: in_ms_WordB)
  have 1: "(rev lp @ l, ?s1) \<in> set (ms (plus (Sym local_class)) (l, s))"
    unfolding in_ms_plus_Sym using m(1) d(1,2,3) by auto
  have 2: "(CHR ''@'' # rev lp @ l, ?s2) \<in> set (ms (chr CHR ''@'') (rev lp @ l, ?s1))"
    unfolding in_ms_chr by simp
  have 3: "(rev dm @ CHR ''@'' # rev lp @ l, ?s3)
      \<in> set (ms (plus (Sym domain_class)) (CHR ''@'' # rev lp @ l, ?s2))"
    unfolding in_ms_plus_Sym using d(4,5) by auto
  have 4: "(CHR ''.'' # rev dm @ CHR ''@'' # rev lp @ l, ?s4)
      \<in> set (ms (chr CHR ''.'') (rev dm @ CHR ''@'' # rev lp @ l, ?s3))"
    unfolding in_ms_chr by simp
  have 5: "(l', s') \<in> set (ms (at_least2 (Sym tld_class))
      (CHR ''.'' # rev dm @ CHR ''@'' # rev lp @ l, ?s4))"
    unfolding in_ms_at_least2_Sym using d(6,7) m(2) d(1) by auto
  have 6: "(l', s') \<in> set (ms WordB (l', s'))" using b2 by (simp add: in_ms_WordB)
  show ?L
    unfolding email_pattern_def
    by (rule ms_seq_I [OF 0], rule ms_seq_I [OF 1], rule ms_seq_I [OF 2], rule ms_seq_I [OF 3],
        rule ms_seq_I [OF 4], rule ms_seq_I [OF 5], rule ms_seq_I [OF 6], rule ms_seq_Nil_I)
qed

lemma ms_email_nonempty_iff:
  "ms email_pattern (l, s) \<noteq> [] \<longleftrightarrow> starts_email tld_class (word_at l) s"
proof
  assume "ms email_pattern (l, s) \<noteq> []"
  then obtain l' s' where "(l', s') \<in> set (ms email_pattern (l, s))"
    by (cases "ms email_pattern (l, s)") auto
  then show "starts_email tld_class (word_at l) s"
    unfolding in_ms_email starts_email_def by blast
next
  assume "starts_email tld_class (word_at l) s"
  then obtain m r where "s = m @ r" "email_at tld_class (word_at l) m r"
    unfolding starts_email_def by blast
  then have "(rev m @ l, r) \<in> set (ms email_pattern (l, s))"
    unfolding in_ms_email by blast
  then show "ms email_pattern (l, s) \<noteq> []" by auto
qed

declare re_sub_from.simps [simp del]

lemma ms_email_Nil: "ms email_pattern (l, []) = []"
proof (rule ccontr)
  assume "ms email_pattern (l, []) \<noteq> []"
  then have "starts_email tld_class (word_at l) []" by (simp only: ms_email_nonempty_iff)
  then show False by (auto simp: starts_email_def email_at_def dest: shaped_nonempty)
qed

lemma redact_from_Nil: "redact_from l [] = []"
  unfolding redact_from_def by (subst re_sub_from.simps) (simp add: ms_email_Nil)

lemma redact_from_copy:
  "ms email_pattern (l, c # cs) = [] \<Longrightarrow> redact_from l (c # cs) = c # redact_from (c # l) cs"
  unfolding redact_from_def by (subst re_sub_from.simps) simp

lemma redact_from_match:
  assumes "ms email_pattern (l, s) = (l', s') # rest"
  shows "redact_from l s = marker @ redact_from l' s'"
proof -
  have "(l', s') \<in> set (ms email_pattern (l, s))" using assms by simp
  then obtain m where m: "s = m @ s'" "email_at tld_class (word_at l) m s'"
    unfolding in_ms_email by blast
  then have "m \<noteq> []" by (auto simp: email_at_def dest: shaped_nonempty)
  then have "length s' < length s" using m(1) by simp
  then show ?thesis
    unfolding redact_from_def using assms by (subst re_sub_from.simps) simp
qed

lemma redact_cases [case_names Empty Copy Match]:
  obtains "s = []"
  | c cs where "s = c # cs" "ms email_pattern (l, s) = []"
  | m s' rest where "s = m @ s'" "m \<noteq> []" "email_at tld_class (word_at l) m s'"
      "ms email_pattern (l, s) = (rev m @ l, s') # rest"
proof (cases "ms email_pattern (l, s)")
  case Nil
  then show ?thesis using that(1,2) by (cases s) auto
next
  case (Cons q rest)
  obtain l' s' where q: "q = (l', s')" by (cases q)
  have "(l', s') \<in> set (ms email_pattern (l, s))" using Cons q by simp
  then obtain m where m: "s = m @ s'" "l' = rev m @ l" "email_at tld_class (word_at l) m s'"
    unfolding in_ms_email by blast
  then have "m \<noteq> []" by (auto simp: email_at_def dest: shaped_nonempty)
  then show ?thesis using that(3) m Cons q by blast
qed

lemma redact_induct [case_names Empty Copy Match]:
  assumes "\<And>l. P l []"
    and "\<And>l c cs. ms email_pattern (l, c # cs) = [] \<Longrightarrow> P (c # l) cs \<Longrightarrow> P l (c # cs)"
    and "\<And>l m s' rest. m \<noteq> [] \<Longrightarrow> email_at tld_class (word_at l) m s' \<Longrightarrow>
           ms email_pattern (l, m @ s') = (rev m @ l, s') # rest \<Longrightarrow>
           P (rev m @ l) s' \<Longrightarrow> P l (m @ s')"
  shows "P l s"
proof (induction "length s" arbitrary: l s rule: less_induct)
  case less
  show ?case
  proof (cases rule: redact_cases [where s = s and l = l])
    case Empty
    then show ?thesis using assms(1) by simp
  next
    case (Copy c cs)
    then show ?thesis using assms(2) less by simp
  next
    case (Match m s' rest)
    have "P (rev m @ l) s'" using less Match(1,2) by simp
    then show ?thesis using assms(3) Match by simp
  qed
qed

lemma email_chars:
  "local_class c \<or> domain_class c \<or> tld_class c \<or> c = CHR ''@'' \<or> c = CHR ''.'' \<Longrightarrow>
     c \<noteq> CHR ''['' \<and> c \<noteq> CHR '']''"
  by (auto simp: local_class_def domain_class_def tld_class_def one_of_def is_upper_def
      is_lower_def is_digit_def code_def)

lemma shaped_chars:
  assumes "shaped tld_class m" and "c \<in> set m"
  shows "c \<noteq> CHR ''['' \<and> c \<noteq> CHR '']''"
proof -
  from assms(1) obtain lp dm tl where d: "m = lp @ CHR ''@'' # dm @ CHR ''.'' # tl"
    "\<forall>c\<in>set lp. local_class c" "\<forall>c\<in>set dm. domain_class c" "\<forall>c\<in>set tl. tld_class c"
    unfolding shaped_def by blast
  from assms(2) d have "local_class c \<or> domain_class c \<or> tld_class c \<or> c = CHR ''@'' \<or> c = CHR ''.''"
    by auto
  then show ?thesis by (rule email_chars)
qed

lemma marker_unfold: "marker = CHR ''['' # ''redacted-email]''"
  by (simp add: marker_def)

lemma redact_prefix:
  assumes "redact_from l s = m @ r'" and "CHR ''['' \<notin> set m"
  shows "\<exists>s''. s = m @ s'' \<and>
    (word_at s'' = word_at r' \<or> (\<not> word_at r' \<and> word_at (rev m @ l) \<noteq> word_at s''))"
  using assms
proof (induction m arbitrary: l s)
  case Nil
  show ?case
  proof (cases rule: redact_cases [where s = s and l = l])
    case Empty
    then have "r' = []" using Nil.prems(1) by (simp add: redact_from_Nil)
    then show ?thesis using Empty by simp
  next
    case (Copy c cs)
    then have "redact_from l s = c # redact_from (c # l) cs"
      using redact_from_copy [of l c cs] by simp
    then have "r' = c # redact_from (c # l) cs" using Nil.prems(1) by simp
    then have "word_at r' = word_at s" using Copy(1) by (simp add: word_at_def)
    then show ?thesis by simp
  next
    case (Match m0 s' rest)
    have "r' = marker @ redact_from (rev m0 @ l) s'"
      using Nil.prems(1) redact_from_match [OF Match(4)] by simp
    then have a: "\<not> word_at r'" by (simp add: marker_unfold word_at_def is_word_def is_upper_def
          is_lower_def is_digit_def code_def)
    have "word_at l \<noteq> word_at m0" using Match(3) by (simp add: email_at_def)
    then have "word_at l \<noteq> word_at s" using Match(1,2) word_at_append by simp
    then show ?thesis using a by simp
  qed
next
  case (Cons d m')
  have d: "d \<noteq> CHR ''[''" using Cons.prems(2) by auto
  show ?case
  proof (cases rule: redact_cases [where s = s and l = l])
    case Empty
    then show ?thesis using Cons.prems(1) by (simp add: redact_from_Nil)
  next
    case (Copy c cs)
    have "redact_from l s = c # redact_from (c # l) cs"
      using Copy redact_from_copy [of l c cs] by simp
    then have "c # redact_from (c # l) cs = d # m' @ r'"
      using Cons.prems(1) by simp
    then have c: "c = d" and r: "redact_from (c # l) cs = m' @ r'" by auto
    from Cons.IH [OF r] Cons.prems(2) obtain s'' where
      s'': "cs = m' @ s''"
      "word_at s'' = word_at r' \<or> (\<not> word_at r' \<and> word_at (rev m' @ c # l) \<noteq> word_at s'')"
      by auto
    have "s = (d # m') @ s''" using Copy(1) c s''(1) by simp
    moreover have "rev (d # m') @ l = rev m' @ c # l" using c by simp
    ultimately show ?thesis using s''(2) by metis
  next
    case (Match m0 s' rest)
    have "marker @ redact_from (rev m0 @ l) s' = d # m' @ r'"
      using Cons.prems(1) redact_from_match [OF Match(4)] by simp
    then show ?thesis using d by (simp add: marker_unfold)
  qed
qed

lemma no_email_at_copy:
  assumes "ms email_pattern (l, s) = []" and "w \<noteq> word_at s \<longrightarrow> word_at l \<noteq> word_at s"
  shows "\<not> starts_email tld_class w (redact_from l s)"
proof
  assume "starts_email tld_class w (redact_from l s)"
  then obtain m r' where m: "redact_from l s = m @ r'" "shaped tld_class m"
    "w \<noteq> word_at m" "word_at (rev m) \<noteq> word_at r'"
    unfolding starts_email_def email_at_def by blast
  have ne: "m \<noteq> []" using m(2) by (rule shaped_nonempty)
  have "CHR ''['' \<notin> set m" using shaped_chars [OF m(2)] by blast
  from redact_prefix [OF m(1) this] obtain s'' where
    s'': "s = m @ s''"
    "word_at s'' = word_at r' \<or> (\<not> word_at r' \<and> word_at (rev m @ l) \<noteq> word_at s'')"
    by blast
  have ws: "word_at s = word_at m" using s''(1) ne word_at_append by simp
  have b1: "word_at l \<noteq> word_at m" using assms(2) m(3) ws by simp
  have "word_at (rev m @ l) = word_at (rev m)" using ne word_at_append [of "rev m"] by simp
  then have b2: "word_at (rev m) \<noteq> word_at s''" using s''(2) m(4) by auto
  have "email_at tld_class (word_at l) m s''" using m(2) b1 b2 by (simp add: email_at_def)
  then have "starts_email tld_class (word_at l) s" using s''(1) starts_email_def by blast
  then show False using assms(1) ms_email_nonempty_iff by blast
qed

lemma no_email_inside:
  assumes "u \<noteq> []" and "CHR ''@'' \<notin> set u" and "\<not> local_class (last u)"
  shows "\<not> starts_email tld w (u @ rest)"
proof
  assume "starts_email tld w (u @ rest)"
  then obtain m r where m: "u @ rest = m @ r" "shaped tld m"
    unfolding starts_email_def email_at_def by blast
  then obtain lp x where lp: "m = lp @ CHR ''@'' # x" "\<forall>c\<in>set lp. local_class c"
    unfolding shaped_def by blast
  have "u @ rest = lp @ (CHR ''@'' # x @ r)" using m(1) lp(1) by simp
  then obtain v where "(u = lp @ v \<and> v @ rest = CHR ''@'' # x @ r) \<or> (u @ v = lp \<and> rest = v @ CHR ''@'' # x @ r)"
    unfolding append_eq_append_conv2 by blast
  then show False
  proof
    assume a: "u = lp @ v \<and> v @ rest = CHR ''@'' # x @ r"
    show False
    proof (cases v)
      case Nil
      then have "last u \<in> set lp" using a assms(1) by auto
      then show False using lp(2) assms(3) by blast
    next
      case (Cons y v')
      then have "y = CHR ''@''" using a by simp
      then show False using a Cons assms(2) by simp
    qed
  next
    assume a: "u @ v = lp \<and> rest = v @ CHR ''@'' # x @ r"
    then have "last u \<in> set lp" using assms(1) by auto
    then show False using lp(2) assms(3) by blast
  qed
qed

lemma email_free_Nil: "email_free tld w []"
  by (auto simp: email_free_def starts_email_def email_at_def dest: shaped_nonempty)

lemma email_free_Cons:
  "email_free tld w (c # t) \<longleftrightarrow> \<not> starts_email tld w (c # t) \<and> email_free tld (is_word c) t"
  (is "?L \<longleftrightarrow> ?R")
proof
  assume l: ?L
  have "\<not> starts_email tld w (c # t)"
    using l [unfolded email_free_def, rule_format, of "[]" "c # t"] by simp
  moreover have "email_free tld (is_word c) t"
    unfolding email_free_def
  proof (intro allI impI)
    fix a b assume "t = a @ b"
    then have "c # t = (c # a) @ b" by simp
    then have "\<not> starts_email tld (if c # a = [] then w else is_word (last (c # a))) b"
      using l unfolding email_free_def by blast
    then show "\<not> starts_email tld (if a = [] then is_word c else is_word (last a)) b"
      by (cases a) auto
  qed
  ultimately show ?R by simp
next
  assume r: ?R
  show ?L
    unfolding email_free_def
  proof (intro allI impI)
    fix a b assume ab: "c # t = a @ b"
    show "\<not> starts_email tld (if a = [] then w else is_word (last a)) b"
    proof (cases a)
      case Nil
      then show ?thesis using ab r by simp
    next
      case (Cons d a')
      then have "t = a' @ b" using ab by simp
      then have "\<not> starts_email tld (if a' = [] then is_word c else is_word (last a')) b"
        using r unfolding email_free_def by blast
      then show ?thesis using Cons ab by (cases a') auto
    qed
  qed
qed

lemma email_free_skip:
  assumes "\<And>i w'. i < length u \<Longrightarrow> \<not> starts_email tld w' (drop i u @ t)"
    and "u \<noteq> []" and "email_free tld (is_word (last u)) t"
  shows "email_free tld w (u @ t)"
  using assms
proof (induction u arbitrary: w)
  case Nil
  then show ?case by simp
next
  case (Cons c u)
  have first: "\<not> starts_email tld w ((c # u) @ t)"
    using Cons.prems(1) [of 0 w] by simp
  have rest: "email_free tld (is_word c) (u @ t)"
  proof (cases "u = []")
    case True
    then show ?thesis using Cons.prems(3) by simp
  next
    case False
    have "\<And>i w'. i < length u \<Longrightarrow> \<not> starts_email tld w' (drop i u @ t)"
      using Cons.prems(1) [of "Suc _"] by simp
    then show ?thesis using Cons.IH [of "is_word c"] False Cons.prems(3) by simp
  qed
  show ?case using first rest by (simp add: email_free_Cons)
qed

lemma marker_suffix_inside:
  assumes "i < length marker"
  shows "\<not> starts_email tld w (drop i marker @ t)"
proof (rule no_email_inside)
  show "drop i marker \<noteq> []" using assms by simp
  have "CHR ''@'' \<notin> set marker" by (simp add: marker_def)
  then show "CHR ''@'' \<notin> set (drop i marker)" using in_set_dropD by fastforce
  have "last (drop i marker) = last marker" using assms by simp
  also have "\<dots> = CHR '']''" by (simp add: marker_def)
  finally show "\<not> local_class (last (drop i marker))"
    by (simp add: local_class_def is_upper_def is_lower_def is_digit_def one_of_def code_def)
qed

lemma redact_from_email_free:
  "(w \<noteq> word_at s \<longrightarrow> word_at l \<noteq> word_at s) \<Longrightarrow>
     email_free tld_class w (redact_from l s)"
proof (induction l s arbitrary: w rule: redact_induct)
  case (Empty l)
  show ?case by (simp add: redact_from_Nil email_free_Nil)
next
  case (Copy l c cs)
  have a: "\<not> starts_email tld_class w (redact_from l (c # cs))"
    using no_email_at_copy [OF Copy.hyps] Copy.prems by blast
  have b: "email_free tld_class (is_word c) (redact_from (c # l) cs)"
    by (rule Copy.IH) (simp add: word_at_def)
  show ?case
    using a b redact_from_copy [OF Copy.hyps] by (simp add: email_free_Cons)
next
  case (Match l m s' rest)
  have e: "redact_from l (m @ s') = marker @ redact_from (rev m @ l) s'"
    by (rule redact_from_match [OF Match.hyps(3)])
  have "word_at (rev m) \<noteq> word_at s'" using Match.hyps(2) by (simp add: email_at_def)
  then have "word_at (rev m @ l) \<noteq> word_at s'"
    using Match.hyps(1) word_at_append [of "rev m" l] by simp
  then have f: "email_free tld_class False (redact_from (rev m @ l) s')"
    by (intro Match.IH) simp
  have "is_word (last marker) = False"
    by (simp add: marker_def is_word_def is_upper_def is_lower_def is_digit_def code_def)
  then have "email_free tld_class (is_word (last marker)) (redact_from (rev m @ l) s')"
    using f by simp
  then have "email_free tld_class w (marker @ redact_from (rev m @ l) s')"
    by (intro email_free_skip marker_suffix_inside) (simp_all add: marker_def)
  then show ?case using e by simp
qed

lemma redact_emails_email_free: "email_free tld_class False (redact_emails s)"
proof -
  have "redact_emails s = redact_from [] s"
    by (simp add: redact_emails_def re_sub_def redact_from_def)
  moreover have "email_free tld_class False (redact_from [] s)"
    by (rule redact_from_email_free) (simp add: word_at_def)
  ultimately show ?thesis by simp
qed

lemma redact_from_fixpoint:
  "email_free tld_class (word_at l) s \<Longrightarrow> redact_from l s = s"
proof (induction s arbitrary: l)
  case Nil
  show ?case by (rule redact_from_Nil)
next
  case (Cons c cs)
  have a: "\<not> starts_email tld_class (word_at l) (c # cs)"
    and b: "email_free tld_class (is_word c) cs"
    using Cons.prems by (simp_all add: email_free_Cons)
  have n: "ms email_pattern (l, c # cs) = []" using a ms_email_nonempty_iff by blast
  have "email_free tld_class (word_at (c # l)) cs" using b by (simp add: word_at_def)
  then have "redact_from (c # l) cs = cs" by (rule Cons.IH)
  then show ?case using redact_from_copy [OF n] by simp
qed

lemma redact_emails_fixpoint:
  "email_free tld_class False s \<Longrightarrow> redact_emails s = s"
  using redact_from_fixpoint [of "[]" s]
  by (simp add: redact_emails_def re_sub_def redact_from_def word_at_def)

subsection \<open>Cutting a text that holds no email\<close>

lemma shaped_last: "shaped tld m \<Longrightarrow> tld (last m)"
proof -
  assume "shaped tld m"
  then obtain lp dm tl where d: "m = lp @ CHR ''@'' # dm @ CHR ''.'' # tl" "2 \<le> length tl"
    "\<forall>c\<in>set tl. tld c"
    unfolding shaped_def by blast
  then have "tl \<noteq> []" by auto
  then have "last m = last tl" using d(1) by simp
  then show ?thesis using d(3) \<open>tl \<noteq> []\<close> by simp
qed

lemma word_at_append_nonword: "\<not> word_at b \<Longrightarrow> word_at (r @ b) = word_at r"
  by (cases r) (auto simp: word_at_def)

lemma email_free_cut_right:
  assumes "email_free tld w (a @ b)" and "\<not> word_at b"
  shows "email_free tld w a"
  unfolding email_free_def
proof (intro allI impI notI)
  fix a1 b1
  assume ab: "a = a1 @ b1"
    and st: "starts_email tld (if a1 = [] then w else is_word (last a1)) b1"
  let ?w = "if a1 = [] then w else is_word (last a1)"
  from st obtain m r where m: "b1 = m @ r" "email_at tld ?w m r"
    unfolding starts_email_def by blast
  have "email_at tld ?w m (r @ b)"
    using m(2) word_at_append_nonword [OF assms(2), of r] by (simp add: email_at_def)
  moreover have "b1 @ b = m @ (r @ b)" using m(1) by simp
  ultimately have "starts_email tld ?w (b1 @ b)" unfolding starts_email_def by blast
  moreover have "a @ b = a1 @ (b1 @ b)" using ab by simp
  ultimately show False using assms(1) unfolding email_free_def by blast
qed

lemma email_free_cut_left:
  assumes "email_free tld w (a @ b)"
  shows "email_free tld (if a = [] then w else is_word (last a)) b"
  unfolding email_free_def
proof (intro allI impI)
  fix a1 b1
  assume b: "b = a1 @ b1"
  then have "a @ b = (a @ a1) @ b1" by simp
  then have "\<not> starts_email tld (if a @ a1 = [] then w else is_word (last (a @ a1))) b1"
    using assms unfolding email_free_def by blast
  then show "\<not> starts_email tld
      (if a1 = [] then if a = [] then w else is_word (last a) else is_word (last a1)) b1"
    by (cases "a1 = []") auto
qed

lemma email_free_snoc:
  assumes "email_free tld w a" and "\<not> is_word c" and "\<not> tld c"
  shows "email_free tld w (a @ [c])"
  unfolding email_free_def
proof (intro allI impI notI)
  fix a1 b1
  assume ab: "a @ [c] = a1 @ b1"
    and st: "starts_email tld (if a1 = [] then w else is_word (last a1)) b1"
  let ?w = "if a1 = [] then w else is_word (last a1)"
  from st obtain m r where m: "b1 = m @ r" "email_at tld ?w m r"
    unfolding starts_email_def by blast
  have sh: "shaped tld m" using m(2) by (simp add: email_at_def)
  have ne: "m \<noteq> []" using sh by (rule shaped_nonempty)
  show False
  proof (cases r rule: rev_cases)
    case Nil
    then have "a @ [c] = (a1 @ butlast m) @ [last m]" using ab m(1) ne by simp
    then have "c = last m" by (simp only: append1_eq_conv)
    then show False using shaped_last [OF sh] assms(3) by simp
  next
    case (snoc r' d)
    then have "a @ [c] = (a1 @ m @ r') @ [d]" using ab m(1) by simp
    then have a: "a = a1 @ m @ r'" and d: "d = c" by (simp_all only: append1_eq_conv)
    have nw: "\<not> word_at [c]" using assms(2) by (simp add: word_at_def)
    have "word_at r = word_at r'" using snoc d word_at_append_nonword [OF nw, of r'] by simp
    then have "email_at tld ?w m r'" using m(2) by (simp add: email_at_def)
    then have "starts_email tld ?w (m @ r')" unfolding starts_email_def by blast
    then show False using assms(1) a unfolding email_free_def by blast
  qed
qed

lemma space_not_word: "is_space c \<Longrightarrow> \<not> is_word c"
  by (auto simp: is_space_def is_word_def is_upper_def is_lower_def is_digit_def)

lemma email_free_lstrip: "email_free tld False t \<Longrightarrow> email_free tld False (lstrip t)"
proof -
  assume a: "email_free tld False t"
  obtain ws where ws: "t = ws @ lstrip t" "\<forall>x\<in>set ws. is_space x" using lstrip_split by blast
  have "(if ws = [] then False else is_word (last ws)) = False"
    using ws(2) space_not_word by auto
  then show ?thesis using email_free_cut_left [of tld False ws "lstrip t"] a ws(1) by simp
qed

lemma rstrip_split: "\<exists>ws. t = rstrip t @ ws \<and> (\<forall>x\<in>set ws. is_space x)"
proof -
  have "t = rev (takeWhile is_space (rev t) @ dropWhile is_space (rev t))" by simp
  also have "\<dots> = rev (dropWhile is_space (rev t)) @ rev (takeWhile is_space (rev t))"
    by (rule rev_append)
  finally have "t = rstrip t @ rev (takeWhile is_space (rev t))"
    by (simp only: rstrip_def)
  moreover have "\<forall>x\<in>set (rev (takeWhile is_space (rev t))). is_space x"
    using set_takeWhileD by fastforce
  ultimately show ?thesis by blast
qed

lemma email_free_rstrip: "email_free tld False t \<Longrightarrow> email_free tld False (rstrip t)"
proof -
  assume a: "email_free tld False t"
  obtain ws where ws: "t = rstrip t @ ws" "\<forall>x\<in>set ws. is_space x" using rstrip_split by blast
  have "\<not> word_at ws" using ws(2) space_not_word by (cases ws) (auto simp: word_at_def)
  then show ?thesis using email_free_cut_right [of tld False "rstrip t" ws] a ws(1) by simp
qed

lemma email_free_strip: "email_free tld False t \<Longrightarrow> email_free tld False (strip t)"
  by (simp add: strip_def email_free_lstrip email_free_rstrip)

section \<open>Inline trailing trims\<close>

lemma in_ms_any_star:
  "(l', s') \<in> set (ms (Star any_char) (l, s)) \<longleftrightarrow>
     (\<exists>m. s = m @ s' \<and> l' = rev m @ l \<and> newline \<notin> set m)"
  unfolding any_char_def in_ms_Star_Sym by auto

lemma in_ms_inline_tail:
  "(l', s') \<in> set (ms (seq inline_tail) (l, r)) \<longleftrightarrow>
     (\<exists>m. r = m @ s' \<and> l' = rev m @ l \<and> tail_parts m s')"
  (is "?L \<longleftrightarrow> ?R")
proof
  assume ?L
  then obtain w kw sp t k where d: "r = w @ kw @ sp @ t @ s'" "l' = rev t @ rev sp @ rev kw @ rev w @ l"
    "w \<noteq> []" "\<forall>x\<in>set w. is_space x" "k \<in> set inline_keywords"
    "map to_lower kw = map to_lower k" "sp \<noteq> []" "\<forall>x\<in>set sp. space_or_comma x"
    "newline \<notin> set t" "s' = [] \<or> s' = [newline]"
    unfolding inline_tail_def in_ms_seq_Cons in_ms_seq_Nil in_ms_plus_Sym in_ms_alts
      in_ms_any_star in_ms_Eos
    by (auto simp: in_ms_lit_i)
  have "tail_parts (w @ kw @ sp @ t) s'"
    unfolding tail_parts_def using d(3-10) by blast
  moreover have "r = (w @ kw @ sp @ t) @ s'" using d(1) by simp
  moreover have "l' = rev (w @ kw @ sp @ t) @ l" using d(2) by simp
  ultimately show ?R by blast
next
  assume ?R
  then obtain m where m: "r = m @ s'" "l' = rev m @ l" "tail_parts m s'" by blast
  from m(3) obtain w kw sp t k where d: "m = w @ kw @ sp @ t"
    "w \<noteq> []" "\<forall>x\<in>set w. is_space x" "k \<in> set inline_keywords"
    "map to_lower kw = map to_lower k" "sp \<noteq> []" "\<forall>x\<in>set sp. space_or_comma x"
    "newline \<notin> set t" "s' = [] \<or> s' = [newline]"
    unfolding tail_parts_def by blast
  have 1: "(rev w @ l, kw @ sp @ t @ s') \<in> set (ms (plus (Sym is_space)) (l, r))"
    unfolding in_ms_plus_Sym using m(1) d(1,2,3) by auto
  have "(rev kw @ rev w @ l, sp @ t @ s') \<in> set (ms (lit_i k) (rev w @ l, kw @ sp @ t @ s'))"
    unfolding in_ms_lit_i using d(5) by auto
  then have 2: "(rev kw @ rev w @ l, sp @ t @ s')
      \<in> set (ms (alts (map lit_i inline_keywords)) (rev w @ l, kw @ sp @ t @ s'))"
    unfolding in_ms_alts using d(4) by auto
  have 3: "(rev sp @ rev kw @ rev w @ l, t @ s')
      \<in> set (ms (plus (Sym space_or_comma)) (rev kw @ rev w @ l, sp @ t @ s'))"
    unfolding in_ms_plus_Sym using d(6,7) by auto
  have 4: "(l', s') \<in> set (ms (Star any_char) (rev sp @ rev kw @ rev w @ l, t @ s'))"
    unfolding in_ms_any_star using d(8) m(2) d(1) by auto
  have 5: "(l', s') \<in> set (ms Eos (l', s'))" using d(9) by (auto simp: in_ms_Eos)
  show ?L
    unfolding inline_tail_def
    by (rule ms_seq_I [OF 1], rule ms_seq_I [OF 2], rule ms_seq_I [OF 3], rule ms_seq_I [OF 4],
        rule ms_seq_I [OF 5], rule ms_seq_Nil_I)
qed

lemma in_ms_inline_pattern:
  "(l', s') \<in> set (ms inline_signature_pattern (l, r)) \<longleftrightarrow>
     (\<exists>m. r = m @ s' \<and> l' = rev m @ l \<and>
        (tail_parts m s' \<or> (\<exists>c m'. m = c # m' \<and> one_of ''.!?'' c \<and> tail_parts m' s')))"
  (is "?L \<longleftrightarrow> ?R")
proof
  assume ?L
  then have "(\<exists>c r1. r = c # r1 \<and> one_of ''.!?'' c \<and> (l', s') \<in> set (ms (seq inline_tail) (c # l, r1)))
      \<or> (l', s') \<in> set (ms (seq inline_tail) (l, r))"
    unfolding inline_signature_pattern_def in_ms_seq_Cons in_ms_opt in_ms_Sym by auto
  then show ?R
  proof
    assume "\<exists>c r1. r = c # r1 \<and> one_of ''.!?'' c \<and> (l', s') \<in> set (ms (seq inline_tail) (c # l, r1))"
    then obtain c r1 m' where "r = c # r1" "one_of ''.!?'' c" "r1 = m' @ s'" "l' = rev m' @ c # l"
      "tail_parts m' s'"
      unfolding in_ms_inline_tail by blast
    then have "r = (c # m') @ s' \<and> l' = rev (c # m') @ l \<and>
        (\<exists>d m''. c # m' = d # m'' \<and> one_of ''.!?'' d \<and> tail_parts m'' s')" by simp
    then show ?R by blast
  next
    assume "(l', s') \<in> set (ms (seq inline_tail) (l, r))"
    then show ?R unfolding in_ms_inline_tail by blast
  qed
next
  assume ?R
  then obtain m where m: "r = m @ s'" "l' = rev m @ l"
    "tail_parts m s' \<or> (\<exists>c m'. m = c # m' \<and> one_of ''.!?'' c \<and> tail_parts m' s')" by blast
  from m(3) show ?L
  proof
    assume "tail_parts m s'"
    then have "(l', s') \<in> set (ms (seq inline_tail) (l, r))"
      unfolding in_ms_inline_tail using m(1,2) by blast
    moreover have "(l, r) \<in> set (ms (opt (Sym (one_of ''.!?''))) (l, r))"
      by (simp add: in_ms_opt)
    ultimately show ?L unfolding inline_signature_pattern_def by (rule ms_seq_I [rotated])
  next
    assume "\<exists>c m'. m = c # m' \<and> one_of ''.!?'' c \<and> tail_parts m' s'"
    then obtain c m' where c: "m = c # m'" "one_of ''.!?'' c" "tail_parts m' s'" by blast
    have "(l', s') \<in> set (ms (seq inline_tail) (c # l, m' @ s'))"
      unfolding in_ms_inline_tail using m(2) c(1,3) by auto
    moreover have "(c # l, m' @ s') \<in> set (ms (opt (Sym (one_of ''.!?''))) (l, r))"
      using m(1) c(1,2) by (simp add: in_ms_opt in_ms_Sym)
    ultimately show ?L unfolding inline_signature_pattern_def by (rule ms_seq_I [rotated])
  qed
qed

lemma to_lower_comma: "to_lower x = to_lower CHR '','' \<longleftrightarrow> x = CHR '',''"
proof -
  have "to_lower x = to_lower CHR '','' \<longleftrightarrow> code (to_lower x) = code (to_lower CHR '','')"
    by (simp add: code_inj)
  also have "\<dots> \<longleftrightarrow> code x = code CHR '',''"
    by (auto simp: to_lower_code is_upper_def) (simp_all add: code_def)
  finally show ?thesis by (simp add: code_inj)
qed

lemma in_ms_inline_pattern2:
  "(l', s') \<in> set (ms inline_signature_pattern2 (l, r)) \<longleftrightarrow>
     (\<exists>m'. r = CHR '','' # m' @ s' \<and> l' = rev m' @ CHR '','' # l \<and> tail_parts m' s')"
  unfolding inline_signature_pattern2_def in_ms_seq_Cons in_ms_chr_i to_lower_comma
    in_ms_inline_tail
  by auto

lemma tail_parts_length: "tail_parts m s' \<Longrightarrow> 2 \<le> length m"
proof -
  assume "tail_parts m s'"
  then obtain w kw sp t where "m = w @ kw @ sp @ t" "w \<noteq> []" "sp \<noteq> []"
    unfolding tail_parts_def by blast
  then show ?thesis by (cases w; cases sp) auto
qed

lemma tail_parts_end: "tail_parts m s' \<Longrightarrow> s' = [] \<or> s' = [newline]"
  unfolding tail_parts_def by blast

lemma tail_parts_hd: "tail_parts m s' \<Longrightarrow> is_space (hd m)"
proof -
  assume "tail_parts m s'"
  then obtain w kw sp t where "m = w @ kw @ sp @ t" "w \<noteq> []" "\<forall>x\<in>set w. is_space x"
    unfolding tail_parts_def by blast
  then show ?thesis by (cases w) auto
qed

lemma trailing_inline: "trailing inline_signature_pattern"
  unfolding trailing_def
proof (intro allI impI)
  fix l r q
  assume q: "q \<in> set (ms inline_signature_pattern (l, r))"
  obtain l' s' where p: "q = (l', s')" by (cases q)
  from q p have "(l', s') \<in> set (ms inline_signature_pattern (l, r))" by simp
  then obtain m where m: "r = m @ s'"
    "tail_parts m s' \<or> (\<exists>c m'. m = c # m' \<and> one_of ''.!?'' c \<and> tail_parts m' s')"
    unfolding in_ms_inline_pattern by blast
  from m(2) have "(s' = [] \<or> s' = [newline]) \<and> 2 \<le> length m"
    using tail_parts_end tail_parts_length by fastforce
  then show "(snd q = [] \<or> snd q = [newline]) \<and> length (snd q) + 2 \<le> length r"
    using p m(1) by auto
qed

lemma trailing_inline2: "trailing inline_signature_pattern2"
  unfolding trailing_def
proof (intro allI impI)
  fix l r q
  assume q: "q \<in> set (ms inline_signature_pattern2 (l, r))"
  obtain l' s' where p: "q = (l', s')" by (cases q)
  from q p have "(l', s') \<in> set (ms inline_signature_pattern2 (l, r))" by simp
  then obtain m' where m: "r = CHR '','' # m' @ s'" "tail_parts m' s'"
    unfolding in_ms_inline_pattern2 by blast
  from m(2) have "(s' = [] \<or> s' = [newline]) \<and> 2 \<le> length m'"
    using tail_parts_end tail_parts_length by blast
  then show "(snd q = [] \<or> snd q = [newline]) \<and> length (snd q) + 2 \<le> length r"
    using p m(1) by auto
qed

lemma trailing_short:
  assumes "trailing R" and "length r < 2"
  shows "ms R (l, r) = []"
proof (cases "ms R (l, r)")
  case Nil
  then show ?thesis .
next
  case (Cons q qs)
  then have "q \<in> set (ms R (l, r))" by simp
  then have "length (snd q) + 2 \<le> length r" using assms(1) unfolding trailing_def by blast
  then show ?thesis using assms(2) by simp
qed

lemma re_sub_from_Nil: "ms R (l, []) = [] \<Longrightarrow> re_sub_from R repl (l, []) = []"
  by (subst re_sub_from.simps) simp

lemma re_sub_from_copy:
  "ms R (l, c # cs) = [] \<Longrightarrow> re_sub_from R repl (l, c # cs) = c # re_sub_from R repl (c # l, cs)"
  by (subst re_sub_from.simps) simp

lemma re_sub_from_rest:
  assumes "trailing R" and "s' = [] \<or> s' = [newline]"
  shows "re_sub_from R repl (l, s') = s'"
proof -
  have n: "ms R (l', []) = []" for l' using trailing_short [OF assms(1)] by simp
  have "ms R (l, [newline]) = []" using trailing_short [OF assms(1)] by simp
  then have "re_sub_from R repl (l, [newline]) = [newline]"
    by (simp add: re_sub_from_copy re_sub_from_Nil n)
  then show ?thesis using assms(2) by (auto simp: re_sub_from_Nil n)
qed

lemma re_sub_from_none:
  "(\<And>a b. s = a @ b \<Longrightarrow> ms R (rev a @ l, b) = []) \<Longrightarrow> re_sub_from R repl (l, s) = s"
proof (induction s arbitrary: l)
  case Nil
  then show ?case using re_sub_from_Nil [of R l] by simp
next
  case (Cons c cs)
  have n: "ms R (l, c # cs) = []" using Cons.prems [of "[]" "c # cs"] by simp
  have "re_sub_from R repl (c # l, cs) = cs"
  proof (rule Cons.IH)
    fix a b assume "cs = a @ b"
    then have "c # cs = (c # a) @ b" by simp
    then have "ms R (rev (c # a) @ l, b) = []" by (rule Cons.prems)
    then show "ms R (rev a @ c # l, b) = []" by simp
  qed
  then show ?case using re_sub_from_copy [OF n] by simp
qed

lemma re_sub_from_first:
  assumes "trailing R"
    and "\<And>a1 b1. a = a1 @ b1 \<Longrightarrow> b1 \<noteq> [] \<Longrightarrow> ms R (rev a1 @ l, b1 @ b) = []"
    and "ms R (rev a @ l, b) = (l', s') # rest"
  shows "re_sub_from R [] (l, a @ b) = a @ s'"
  using assms(2,3)
proof (induction a arbitrary: l)
  case Nil
  have q: "(l', s') \<in> set (ms R (l, b))" using Nil.prems(2) by simp
  then have e: "s' = [] \<or> s' = [newline]" and len: "length s' + 2 \<le> length b"
    using assms(1) unfolding trailing_def by fastforce+
  have "re_sub_from R [] (l, b) = re_sub_from R [] (l', s')"
    using Nil.prems(2) len by (subst re_sub_from.simps) simp
  then show ?case using re_sub_from_rest [OF assms(1) e] by simp
next
  case (Cons c a)
  have n: "ms R (l, c # a @ b) = []" using Cons.prems(1) [of "[]" "c # a"] by simp
  have "re_sub_from R [] (c # l, a @ b) = a @ s'"
  proof (rule Cons.IH)
    fix a1 b1 assume "a = a1 @ b1" "b1 \<noteq> []"
    then have "ms R (rev (c # a1) @ l, b1 @ b) = []" using Cons.prems(1) [of "c # a1" b1] by simp
    then show "ms R (rev a1 @ c # l, b1 @ b) = []" by simp
  next
    show "ms R (rev a @ c # l, b) = (l', s') # rest" using Cons.prems(2) by simp
  qed
  then show ?case using re_sub_from_copy [OF n] by simp
qed

lemma line_tail_split:
  assumes "line_tail R"
  shows "\<exists>t s'. R = t @ s' \<and> newline \<notin> set t \<and> (s' = [] \<or> s' = [newline])"
proof (cases R rule: rev_cases)
  case Nil
  then show ?thesis by simp
next
  case (snoc t c)
  then have t: "newline \<notin> set t" using assms by (simp add: line_tail_def)
  show ?thesis
  proof (cases "c = newline")
    case True
    then have "R = t @ [newline] \<and> newline \<notin> set t \<and> ([newline] = [] \<or> [newline] = [newline])"
      using snoc t by simp
    then show ?thesis by blast
  next
    case False
    then have "R = R @ [] \<and> newline \<notin> set R" using snoc t by simp
    then show ?thesis by blast
  qed
qed

lemma line_tail_join:
  assumes "newline \<notin> set t" and "s' = [] \<or> s' = [newline]"
  shows "line_tail (t @ s')"
proof -
  have "set (butlast (t @ s')) \<subseteq> set t"
    using assms(2) by (auto dest: in_set_butlastD)
  then show ?thesis using assms(1) by (auto simp: line_tail_def)
qed

lemma line_tail_dropWhile: "line_tail v \<Longrightarrow> line_tail (dropWhile P v)"
proof -
  assume a: "line_tail v"
  have "butlast (dropWhile P v) = butlast (drop (length (takeWhile P v)) v)"
    by (simp add: dropWhile_eq_drop)
  also have "\<dots> = drop (length (takeWhile P v)) (butlast v)" by (simp add: drop_butlast)
  finally have "set (butlast (dropWhile P v)) \<subseteq> set (butlast v)"
    by (simp add: set_drop_subset)
  then show ?thesis using a by (auto simp: line_tail_def)
qed

lemma keyword_tail_iff:
  "keyword_tail r \<longleftrightarrow>
     (\<exists>sp t s'. r = sp @ t @ s' \<and> sp \<noteq> [] \<and> (\<forall>x\<in>set sp. space_or_comma x) \<and>
        newline \<notin> set t \<and> (s' = [] \<or> s' = [newline]))"
  (is "?L \<longleftrightarrow> ?R")
proof
  assume ?L
  then obtain c cs where r: "r = c # cs" "space_or_comma c"
    "line_tail (dropWhile space_or_comma r)"
    by (cases r) (auto simp: keyword_tail_def)
  from line_tail_split [OF r(3)] obtain t s' where
    t: "dropWhile space_or_comma r = t @ s'" "newline \<notin> set t" "s' = [] \<or> s' = [newline]"
    by blast
  let ?sp = "takeWhile space_or_comma r"
  have "r = ?sp @ t @ s'" using t(1) by (metis takeWhile_dropWhile_id)
  moreover have "?sp \<noteq> []" using r(1,2) by simp
  moreover have "\<forall>x\<in>set ?sp. space_or_comma x" using set_takeWhileD by fastforce
  ultimately show ?R using t(2,3) by blast
next
  assume ?R
  then obtain sp t s' where d: "r = sp @ t @ s'" "sp \<noteq> []" "\<forall>x\<in>set sp. space_or_comma x"
    "newline \<notin> set t" "s' = [] \<or> s' = [newline]" by blast
  obtain c sp' where sp: "sp = c # sp'" using d(2) by (cases sp) auto
  have "dropWhile space_or_comma r = dropWhile space_or_comma (t @ s')"
    using d(1,3) by (simp add: dropWhile_append2)
  moreover have "line_tail (dropWhile space_or_comma (t @ s'))"
    by (rule line_tail_dropWhile) (rule line_tail_join [OF d(4,5)])
  ultimately show ?L using d(1,3) sp by (simp add: keyword_tail_def)
qed

lemma inline_keywords_heads:
  "k \<in> set inline_keywords \<Longrightarrow> k \<noteq> [] \<and> \<not> is_space (hd k)"
  by (auto simp: inline_keywords_def is_space_def code_def)

lemma tail_cue_iff: "tail_cue r \<longleftrightarrow> (\<exists>m s'. r = m @ s' \<and> tail_parts m s')"
  (is "?L \<longleftrightarrow> ?R")
proof
  assume ?L
  then obtain c cs k where r: "r = c # cs" "is_space c" "k \<in> set inline_keywords"
    "ci_starts k (lstrip r)" "keyword_tail (drop (length k) (lstrip r))"
    by (cases r) (auto simp: tail_cue_def list_ex_iff)
  obtain w where w: "r = w @ lstrip r" "\<forall>x\<in>set w. is_space x" using lstrip_split by blast
  have wne: "w \<noteq> []"
  proof
    assume "w = []"
    then have "lstrip r = r" using w(1) by simp
    then show False using lstrip_hd [of r] r(1,2) by auto
  qed
  let ?kw = "take (length k) (lstrip r)"
  have kw: "map to_lower ?kw = map to_lower k"
    using r(4) by (simp add: ci_starts_def ci_equal_def)
  from r(5) obtain sp t s' where d: "drop (length k) (lstrip r) = sp @ t @ s'" "sp \<noteq> []"
    "\<forall>x\<in>set sp. space_or_comma x" "newline \<notin> set t" "s' = [] \<or> s' = [newline]"
    unfolding keyword_tail_iff by blast
  have "lstrip r = ?kw @ sp @ t @ s'" using d(1) by (metis append_take_drop_id)
  then have "r = (w @ ?kw @ sp @ t) @ s'" using w(1) by simp
  moreover have "tail_parts (w @ ?kw @ sp @ t) s'"
    unfolding tail_parts_def using wne w(2) r(3) kw d(2-5) by blast
  ultimately show ?R by blast
next
  assume ?R
  then obtain m s' where m: "r = m @ s'" "tail_parts m s'" by blast
  from m(2) obtain w kw sp t k where d: "m = w @ kw @ sp @ t" "w \<noteq> []"
    "\<forall>x\<in>set w. is_space x" "k \<in> set inline_keywords" "map to_lower kw = map to_lower k"
    "sp \<noteq> []" "\<forall>x\<in>set sp. space_or_comma x" "newline \<notin> set t" "s' = [] \<or> s' = [newline]"
    unfolding tail_parts_def by blast
  have kh: "kw \<noteq> [] \<and> \<not> is_space (hd kw)"
    using ci_hd_space [OF d(5)] inline_keywords_heads [OF d(4)] by simp
  have r: "r = w @ (kw @ sp @ t @ s')" using m(1) d(1) by simp
  have ls: "lstrip r = kw @ sp @ t @ s'"
    unfolding r using d(3) kh by (intro lstrip_spaces_append) auto
  have len: "length kw = length k" using d(5) map_eq_imp_length_eq by blast
  have cs: "ci_starts k (lstrip r)" using d(5) len by (simp add: ls ci_starts_def ci_equal_def)
  have "keyword_tail (sp @ t @ s')" unfolding keyword_tail_iff using d(6-9) by blast
  then have kt: "keyword_tail (drop (length k) (lstrip r))" using len by (simp add: ls)
  obtain c w' where "w = c # w'" using d(2) by (cases w) auto
  then have "r = c # (w' @ kw @ sp @ t @ s')" "is_space c" using r d(3) by auto
  then show ?L using cs kt d(4) by (auto simp: tail_cue_def list_ex_iff)
qed

lemma ms_inline_nonempty_iff: "ms inline_signature_pattern (l, r) \<noteq> [] \<longleftrightarrow> inline_cue r"
  (is "?L \<longleftrightarrow> ?R")
proof
  assume ?L
  then obtain l' s' where "(l', s') \<in> set (ms inline_signature_pattern (l, r))"
    by (cases "ms inline_signature_pattern (l, r)") auto
  then obtain m where m: "r = m @ s'"
    "tail_parts m s' \<or> (\<exists>c m'. m = c # m' \<and> one_of ''.!?'' c \<and> tail_parts m' s')"
    unfolding in_ms_inline_pattern by blast
  from m(2) show ?R
  proof
    assume "tail_parts m s'"
    then have "tail_cue r" unfolding tail_cue_iff using m(1) by blast
    then show ?R by (simp add: inline_cue_def)
  next
    assume "\<exists>c m'. m = c # m' \<and> one_of ''.!?'' c \<and> tail_parts m' s'"
    then obtain c m' where c: "m = c # m'" "one_of ''.!?'' c" "tail_parts m' s'" by blast
    then have "tail_cue (m' @ s')" unfolding tail_cue_iff by blast
    then show ?R using m(1) c(1,2) by (simp add: inline_cue_def)
  qed
next
  assume ?R
  then have "tail_cue r \<or> (\<exists>c cs. r = c # cs \<and> one_of ''.!?'' c \<and> tail_cue cs)"
    by (cases r) (auto simp: inline_cue_def)
  then have "\<exists>l' s'. (l', s') \<in> set (ms inline_signature_pattern (l, r))"
  proof
    assume "tail_cue r"
    then obtain m s' where "r = m @ s'" "tail_parts m s'" unfolding tail_cue_iff by blast
    then have "(rev m @ l, s') \<in> set (ms inline_signature_pattern (l, r))"
      unfolding in_ms_inline_pattern by blast
    then show ?thesis by blast
  next
    assume "\<exists>c cs. r = c # cs \<and> one_of ''.!?'' c \<and> tail_cue cs"
    then obtain c cs m' s' where "r = c # cs" "one_of ''.!?'' c" "cs = m' @ s'" "tail_parts m' s'"
      unfolding tail_cue_iff by blast
    then have "r = (c # m') @ s' \<and> (\<exists>d m''. c # m' = d # m'' \<and> one_of ''.!?'' d \<and> tail_parts m'' s')"
      by simp
    then have "(rev (c # m') @ l, s') \<in> set (ms inline_signature_pattern (l, r))"
      unfolding in_ms_inline_pattern by blast
    then show ?thesis by blast
  qed
  then show ?L by auto
qed

lemma ms_inline2_nonempty_iff: "ms inline_signature_pattern2 (l, r) \<noteq> [] \<longleftrightarrow> comma_cue r"
  (is "?L \<longleftrightarrow> ?R")
proof
  assume ?L
  then obtain l' s' where "(l', s') \<in> set (ms inline_signature_pattern2 (l, r))"
    by (cases "ms inline_signature_pattern2 (l, r)") auto
  then obtain m' where m: "r = CHR '','' # m' @ s'" "tail_parts m' s'"
    unfolding in_ms_inline_pattern2 by blast
  then have "tail_cue (m' @ s')" unfolding tail_cue_iff by blast
  then show ?R using m(1) by (simp add: comma_cue_def)
next
  assume ?R
  then obtain cs where r: "r = CHR '','' # cs" "tail_cue cs"
    by (cases r) (auto simp: comma_cue_def)
  then obtain m' s' where "cs = m' @ s'" "tail_parts m' s'" unfolding tail_cue_iff by blast
  then have "(rev m' @ CHR '','' # l, s') \<in> set (ms inline_signature_pattern2 (l, r))"
    unfolding in_ms_inline_pattern2 using r(1) by blast
  then show ?L by auto
qed

lemma upt_split: "[0..<n] = us @ p # vs \<Longrightarrow> us = [0..<p]"
proof -
  assume a: "[0..<n] = us @ p # vs"
  then have len: "length us < n" by (metis length_upt length_append length_Cons
        add_Suc_right less_add_Suc1 minus_nat.diff_0)
  have "[0..<n] ! length us = p" using a by (simp add: nth_append)
  then have p: "p = length us" using len by simp
  have "us = take (length us) [0..<n]" using a by simp
  also have "\<dots> = [0..<length us]" using len by (simp add: take_upt)
  finally show ?thesis using p by simp
qed

lemma filter_upt_first:
  assumes "filter P [0..<n] = p # ps"
  shows "p < n \<and> P p \<and> (\<forall>i<p. \<not> P i)"
proof -
  from assms obtain us vs where d: "[0..<n] = us @ p # vs" "\<forall>u\<in>set us. \<not> P u" "P p"
    unfolding filter_eq_Cons_iff by blast
  have us: "us = [0..<p]" using d(1) by (rule upt_split)
  have "p \<in> set [0..<n]" using d(1) by simp
  then show ?thesis using d(2,3) us by simp
qed

lemma cue_positions_Nil:
  "cue_positions cue t = [] \<Longrightarrow> p < length t \<Longrightarrow> \<not> cue (drop p t)"
  by (auto simp: cue_positions_def filter_empty_conv)

lemma cue_positions_first:
  "cue_positions cue t = p # ps \<Longrightarrow> p < length t \<and> cue (drop p t) \<and> (\<forall>i<p. \<not> cue (drop i t))"
  unfolding cue_positions_def by (rule filter_upt_first)

lemma re_sub_trailing:
  assumes "trailing R" and "\<And>l r. ms R (l, r) \<noteq> [] \<longleftrightarrow> cue r"
  shows "trim_result cue t (re_sub R [] t)"
proof (cases "cue_positions cue t")
  case Nil
  have "re_sub_from R [] ([], t) = t"
  proof (rule re_sub_from_none)
    fix a b assume ab: "t = a @ b"
    show "ms R (rev a @ [], b) = []"
    proof (cases b)
      case Nil
      then show ?thesis using trailing_short [OF assms(1)] by simp
    next
      case (Cons c cs)
      then have "length a < length t" using ab by simp
      then have "\<not> cue (drop (length a) t)" using cue_positions_Nil [OF Nil] by blast
      then have "\<not> cue b" using ab by simp
      then show ?thesis using assms(2) [of "rev a @ []" b] by blast
    qed
  qed
  then show ?thesis using Nil by (simp add: trim_result_def re_sub_def)
next
  case (Cons p ps)
  from cue_positions_first [OF Cons] have p: "p < length t" "cue (drop p t)"
    "\<forall>i<p. \<not> cue (drop i t)" by blast+
  let ?a = "take p t" and ?b = "drop p t"
  have "ms R (rev ?a @ [], ?b) \<noteq> []" using assms(2) p(2) by blast
  then obtain l' s' rest where m: "ms R (rev ?a @ [], ?b) = (l', s') # rest"
    by (cases "ms R (rev ?a @ [], ?b)") auto
  have early: "ms R (rev a1 @ [], b1 @ ?b) = []" if "?a = a1 @ b1" "b1 \<noteq> []" for a1 b1
  proof -
    have la: "length ?a = p" using p(1) by simp
    then have "length a1 < p" using that by (metis length_append length_greater_0_conv
          less_add_same_cancel1)
    moreover have "t = a1 @ b1 @ ?b" using that(1) by (metis append_assoc append_take_drop_id)
    ultimately have "\<not> cue (b1 @ ?b)" using p(3) by (metis append_eq_conv_conj)
    then show ?thesis using assms(2) by blast
  qed
  have r: "re_sub_from R [] ([], ?a @ ?b) = ?a @ s'"
    by (rule re_sub_from_first [OF assms(1) early m])
  have "(l', s') \<in> set (ms R (rev ?a @ [], ?b))" using m by simp
  then have e: "s' = [] \<or> s' = [newline]" and "\<exists>x. ?b = x @ s'"
    using assms(1) ms_consumes [of "(l', s')" R "(rev ?a @ [], ?b)"]
    unfolding trailing_def by fastforce+
  then obtain x where x: "?b = x @ s'" by blast
  have "last t = newline" if "s' = [newline]"
  proof -
    have "t = ?a @ x @ [newline]" using x that by (metis append_take_drop_id)
    then have "t = (?a @ x) @ [newline]" by simp
    then show ?thesis by (metis last_snoc)
  qed
  then show ?thesis using Cons r e by (auto simp: trim_result_def re_sub_def)
qed

section \<open>The sanitized text holds no email\<close>

lemma tail_cue_nonword: "tail_cue r \<Longrightarrow> \<not> word_at r"
  by (cases r) (auto simp: tail_cue_def word_at_def space_not_word)

lemma punct_not_word: "one_of ''.!?'' c \<Longrightarrow> \<not> is_word c"
  by (auto simp: one_of_def is_word_def is_upper_def is_lower_def is_digit_def code_def)

lemma inline_cue_nonword: "inline_cue r \<Longrightarrow> \<not> word_at r"
proof -
  assume "inline_cue r"
  then have "tail_cue r \<or> (\<exists>c cs. r = c # cs \<and> one_of ''.!?'' c)"
    by (cases r) (auto simp: inline_cue_def)
  then show ?thesis
  proof
    assume "tail_cue r"
    then show ?thesis by (rule tail_cue_nonword)
  next
    assume "\<exists>c cs. r = c # cs \<and> one_of ''.!?'' c"
    then show ?thesis using punct_not_word by (auto simp: word_at_def)
  qed
qed

lemma comma_cue_nonword: "comma_cue r \<Longrightarrow> \<not> word_at r"
  by (cases r) (auto simp: comma_cue_def word_at_def is_word_def is_upper_def is_lower_def
      is_digit_def code_def)

lemma newline_plain: "\<not> is_word newline \<and> \<not> tld_class newline"
  by (simp add: newline_def is_word_def tld_class_def is_upper_def is_lower_def is_digit_def
      code_def)

lemma full_stop_plain: "\<not> is_word CHR ''.'' \<and> \<not> tld_class CHR ''.''"
  by (simp add: is_word_def tld_class_def is_upper_def is_lower_def is_digit_def code_def)

lemma email_free_trim:
  assumes "trim_result cue t out" and "\<And>r. cue r \<Longrightarrow> \<not> word_at r"
    and "email_free tld_class False t"
  shows "email_free tld_class False out"
proof (cases "cue_positions cue t")
  case Nil
  then show ?thesis using assms(1,3) by (simp add: trim_result_def)
next
  case (Cons p ps)
  have "cue (drop p t)" using cue_positions_first [OF Cons] by blast
  then have "\<not> word_at (drop p t)" by (rule assms(2))
  moreover have "email_free tld_class False (take p t @ drop p t)" using assms(3) by simp
  ultimately have a: "email_free tld_class False (take p t)" by (rule email_free_cut_right [rotated])
  then have b: "email_free tld_class False (take p t @ [newline])"
    using newline_plain by (intro email_free_snoc) auto
  show ?thesis using assms(1) Cons a b by (auto simp: trim_result_def)
qed

lemma email_free_inline_stage:
  assumes "email_free tld_class False t"
  shows "email_free tld_class False (inline_stage t)"
proof -
  let ?t1 = "re_sub inline_signature_pattern [] t"
  have 1: "email_free tld_class False ?t1"
    using re_sub_trailing [OF trailing_inline ms_inline_nonempty_iff] inline_cue_nonword assms
    by (rule email_free_trim)
  have "email_free tld_class False (re_sub inline_signature_pattern2 [] ?t1)"
    using re_sub_trailing [OF trailing_inline2 ms_inline2_nonempty_iff] comma_cue_nonword 1
    by (rule email_free_trim)
  then show ?thesis by (simp add: inline_stage_def)
qed

lemma join_lines_append:
  "xs \<noteq> [] \<Longrightarrow> ys \<noteq> [] \<Longrightarrow> join_lines (xs @ ys) = join_lines xs @ newline # join_lines ys"
proof (induction xs rule: join_lines.induct)
  case 1
  then show ?case by simp
next
  case (2 l)
  then show ?case by (cases ys) auto
next
  case (3 l v va)
  then show ?case by simp
qed

lemma email_free_join_takeWhile:
  assumes "email_free tld False t"
  shows "email_free tld False (join_lines (takeWhile P (split_lines t)))"
proof -
  let ?xs = "takeWhile P (split_lines t)" and ?ys = "dropWhile P (split_lines t)"
  have t: "t = join_lines (?xs @ ?ys)" by (simp add: join_split_lines)
  show ?thesis
  proof (cases "?xs = [] \<or> ?ys = []")
    case True
    then show ?thesis
    proof
      assume "?xs = []"
      then show ?thesis by (simp add: email_free_Nil)
    next
      assume "?ys = []"
      then have "?xs = split_lines t" by (metis takeWhile_dropWhile_id append_Nil2)
      then have "join_lines ?xs = t" by (simp only: join_split_lines)
      then show ?thesis using assms by simp
    qed
  next
    case False
    then have "t = join_lines ?xs @ newline # join_lines ?ys"
      using t join_lines_append [of ?xs ?ys] by simp
    moreover have "\<not> word_at (newline # join_lines ?ys)"
      by (simp add: word_at_def newline_def is_word_def is_upper_def is_lower_def is_digit_def
          code_def)
    ultimately show ?thesis using assms email_free_cut_right by metis
  qed
qed

lemma email_free_line_stage:
  "email_free tld False t \<Longrightarrow> email_free tld False (line_stage t)"
  by (simp add: line_stage_def scan_lines_takeWhile email_free_strip email_free_join_takeWhile)

lemma email_free_sentence_end:
  assumes "email_free tld_class False t"
  shows "email_free tld_class False (sentence_end t)"
proof -
  have a: "email_free tld_class False (rstrip t)" using assms by (rule email_free_rstrip)
  then have "email_free tld_class False (rstrip t @ ''.'')"
    using full_stop_plain by (intro email_free_snoc) auto
  then show ?thesis using a by (simp add: sentence_end_def Let_def)
qed

text \<open>
  Claim C9. Redaction leaves the sanitized text unchanged: no email-like substring is
  left by the redaction, and none is made by dropping lines, stripping, the inline trims
  or the appended full stop, since each of them cuts or extends the text at a character
  that is neither a word character nor part of an address.
\<close>

theorem sanitize_content_redaction_fixpoint:
  "redact_emails (sanitize_content x) = sanitize_content x \<and>
   email_free tld_class False (sanitize_content x)"
proof -
  have "email_free tld_class False (redact_emails x)" by (rule redact_emails_email_free)
  then have "email_free tld_class False (line_stage (redact_emails x))"
    by (rule email_free_line_stage)
  then have "email_free tld_class False (inline_stage (line_stage (redact_emails x)))"
    by (rule email_free_inline_stage)
  then have "email_free tld_class False
      (sentence_end (inline_stage (line_stage (redact_emails x))))"
    by (rule email_free_sentence_end)
  then have "email_free tld_class False (remove_signature_lines (redact_emails x))"
    unfolding remove_signature_lines_def by (rule email_free_strip)
  then have f: "email_free tld_class False (sanitize_content x)"
    unfolding sanitize_content_def by (rule email_free_strip)
  then have "redact_emails (sanitize_content x) = sanitize_content x"
    by (rule redact_emails_fixpoint)
  then show ?thesis using f by simp
qed

theorem sanitize_content_redaction_fixpoint_witness:
  "redact_emails (sanitize_content ''Mail bob@corp.example.com or amy@x.org. Thanks, Al'') =
     sanitize_content ''Mail bob@corp.example.com or amy@x.org. Thanks, Al''"
  by (rule conjunct1 [OF sanitize_content_redaction_fixpoint])

section \<open>Email redaction: what is replaced\<close>

lemma shaped_mono:
  assumes "\<And>c. t1 c \<Longrightarrow> t2 c" and "shaped t1 m"
  shows "shaped t2 m"
proof -
  from assms(2) obtain lp dm tl where d: "m = lp @ CHR ''@'' # dm @ CHR ''.'' # tl"
    "lp \<noteq> []" "\<forall>c\<in>set lp. local_class c" "dm \<noteq> []" "\<forall>c\<in>set dm. domain_class c"
    "2 \<le> length tl" "\<forall>c\<in>set tl. t1 c"
    unfolding shaped_def by blast
  have "\<forall>c\<in>set tl. t2 c" using d(7) assms(1) by simp
  then have "shaped t2 (lp @ CHR ''@'' # dm @ CHR ''.'' # tl)"
    unfolding shaped_def using d(2-6) by blast
  then show ?thesis using d(1) by simp
qed

lemma is_alpha_tld: "is_alpha c \<Longrightarrow> tld_class c"
  by (auto simp: is_alpha_def tld_class_def)

lemma tld_is_alpha: "tld_class c \<Longrightarrow> c \<noteq> CHR ''|'' \<Longrightarrow> is_alpha c"
  by (auto simp: is_alpha_def tld_class_def)

lemma shaped_no_bar:
  assumes "shaped tld_class m" and "CHR ''|'' \<notin> set m"
  shows "shaped is_alpha m"
proof -
  from assms(1) obtain lp dm tl where d: "m = lp @ CHR ''@'' # dm @ CHR ''.'' # tl"
    "lp \<noteq> []" "\<forall>c\<in>set lp. local_class c" "dm \<noteq> []" "\<forall>c\<in>set dm. domain_class c"
    "2 \<le> length tl" "\<forall>c\<in>set tl. tld_class c"
    unfolding shaped_def by blast
  have "CHR ''|'' \<notin> set tl" using d(1) assms(2) by simp
  then have "\<forall>c\<in>set tl. is_alpha c" using d(7) tld_is_alpha by blast
  then have "shaped is_alpha (lp @ CHR ''@'' # dm @ CHR ''.'' # tl)"
    unfolding shaped_def using d(2-6) by blast
  then show ?thesis using d(1) by simp
qed

lemma starts_email_alpha:
  assumes "starts_email is_alpha w s"
  shows "starts_email tld_class w s"
proof -
  from assms obtain m r where m: "s = m @ r" "shaped is_alpha m" "w \<noteq> word_at m"
    "word_at (rev m) \<noteq> word_at r"
    unfolding starts_email_def email_at_def by blast
  have "shaped tld_class m" using is_alpha_tld m(2) by (rule shaped_mono)
  then have "email_at tld_class w m r" using m(3,4) by (simp add: email_at_def)
  then show ?thesis unfolding starts_email_def using m(1) by blast
qed

lemma count_marker_skip: "CHR ''['' \<notin> set u \<Longrightarrow> count_marker (u @ v) = count_marker v"
  by (induction u) (auto simp: marker_unfold)

lemma count_marker_marker: "count_marker (marker @ v) = Suc (count_marker v)"
proof -
  have "count_marker (''redacted-email]'' @ v) = count_marker v"
    by (rule count_marker_skip) simp
  then show ?thesis by (simp add: marker_def)
qed

lemma redact_copy_run:
  assumes "\<And>i. i < length u \<Longrightarrow> ms email_pattern (rev (take i u) @ l, drop i u @ rest) = []"
  shows "redact_from l (u @ rest) = u @ redact_from (rev u @ l) rest"
  using assms
proof (induction u arbitrary: l)
  case Nil
  show ?case by simp
next
  case (Cons c u)
  have n: "ms email_pattern (l, c # u @ rest) = []" using Cons.prems [of 0] by simp
  have "redact_from (c # l) (u @ rest) = u @ redact_from (rev u @ c # l) rest"
  proof (rule Cons.IH)
    fix i assume "i < length u"
    then have "ms email_pattern (rev (take (Suc i) (c # u)) @ l, drop (Suc i) (c # u) @ rest) = []"
      using Cons.prems [of "Suc i"] by simp
    then show "ms email_pattern (rev (take i u) @ c # l, drop i u @ rest) = []" by simp
  qed
  then show ?case using redact_from_copy [OF n] by simp
qed

lemma marker_interior:
  assumes "i < length ''redacted-email]''"
  shows "ms email_pattern (l', drop i ''redacted-email]'' @ rest) = []"
proof -
  let ?u = "drop i ''redacted-email]''"
  have ne: "?u \<noteq> []" using assms by simp
  have "CHR ''@'' \<notin> set ''redacted-email]''" by simp
  then have at: "CHR ''@'' \<notin> set ?u" using in_set_dropD by fastforce
  have "last ?u = last ''redacted-email]''" using assms by (rule last_drop)
  then have "last ?u = CHR '']''" by simp
  then have lc: "\<not> local_class (last ?u)"
    by (simp add: local_class_def is_upper_def is_lower_def is_digit_def one_of_def code_def)
  have "\<not> starts_email tld_class (word_at l') (?u @ rest)"
    using ne at lc by (rule no_email_inside)
  then show ?thesis using ms_email_nonempty_iff by blast
qed

lemma prefix_marker_copy:
  "prefix marker (c # redact_from (c # l) cs) \<longleftrightarrow> prefix marker (c # cs)"
  (is "?L \<longleftrightarrow> ?R")
proof
  assume ?L
  then obtain r' where "c # redact_from (c # l) cs = marker @ r'" unfolding prefix_def by blast
  then have c: "c = CHR ''[''" and o: "redact_from (c # l) cs = ''redacted-email]'' @ r'"
    by (auto simp: marker_unfold)
  have "CHR ''['' \<notin> set ''redacted-email]''" by simp
  from redact_prefix [OF o this] obtain s'' where "cs = ''redacted-email]'' @ s''" by blast
  then have "c # cs = marker @ s''" using c by (simp add: marker_unfold)
  then show ?R unfolding prefix_def by blast
next
  assume ?R
  then obtain s'' where "c # cs = marker @ s''" unfolding prefix_def by blast
  then have c: "c = CHR ''[''" and cs: "cs = ''redacted-email]'' @ s''"
    by (auto simp: marker_unfold)
  have "redact_from (c # l) (''redacted-email]'' @ s'') =
      ''redacted-email]'' @ redact_from (rev ''redacted-email]'' @ c # l) s''"
    by (rule redact_copy_run) (rule marker_interior)
  then have "c # redact_from (c # l) cs =
      marker @ redact_from (rev ''redacted-email]'' @ c # l) s''"
    using c cs by (simp add: marker_unfold)
  then show ?L unfolding prefix_def by blast
qed

lemma no_at_email_free: "CHR ''@'' \<notin> set s \<Longrightarrow> email_free tld w s"
  unfolding email_free_def starts_email_def email_at_def shaped_def by auto

text \<open>
  Claim C1 as stated fails on a text that holds the marker already: no substring of it
  is email-like, yet the output holds one marker.
\<close>

theorem marker_in_input_counterexample:
  "email_free is_alpha False ''The log shows [redacted-email] twice'' \<and>
   redact_emails ''The log shows [redacted-email] twice'' =
     ''The log shows [redacted-email] twice'' \<and>
   count_marker (redact_emails ''The log shows [redacted-email] twice'') = 1"
proof -
  let ?t = "''The log shows [redacted-email] twice''"
  have at: "CHR ''@'' \<notin> set ?t" by simp
  have a: "email_free is_alpha False ?t" using at by (rule no_at_email_free)
  have "email_free tld_class False ?t" using at by (rule no_at_email_free)
  then have b: "redact_emails ?t = ?t" by (rule redact_emails_fixpoint)
  have "count_marker ?t = 1" by (simp add: marker_def)
  then have c: "count_marker (redact_emails ?t) = 1" using b by simp
  show ?thesis by (intro conjI a b c)
qed

text \<open>
  The class of the top-level part holds the bar: after two letters the match runs on
  through a bar and further letters.
\<close>

lemma redact_emails_bar: "redact_emails ''x@y.ab|cd'' = ''[redacted-email]''"
  by code_simp

section \<open>The sanitizer as a whole\<close>

lemma rstrip_append_spaces: "(\<forall>x\<in>set ws. is_space x) \<Longrightarrow> rstrip (a @ ws) = rstrip a"
proof -
  assume "\<forall>x\<in>set ws. is_space x"
  then have "dropWhile is_space (rev ws @ rev a) = dropWhile is_space (rev a)"
    by (intro dropWhile_append2) simp
  then show ?thesis by (simp add: rstrip_def)
qed

lemma trim_result_shape:
  assumes "trim_result cue t out"
  shows "\<exists>q ws. out = take q t @ ws \<and> (\<forall>x\<in>set ws. is_space x)"
proof -
  have sp: "is_space newline" by (simp add: is_space_def newline_def code_def)
  from assms have "out = t \<or> (\<exists>p. out = take p t \<or> out = take p t @ [newline])"
    by (auto simp: trim_result_def split: list.splits)
  then show ?thesis
  proof
    assume "out = t"
    then have "out = take (length t) t @ [] \<and> (\<forall>x\<in>set []. is_space x)" by simp
    then show ?thesis by blast
  next
    assume "\<exists>p. out = take p t \<or> out = take p t @ [newline]"
    then obtain p where "out = take p t \<or> out = take p t @ [newline]" by blast
    then show ?thesis
    proof
      assume "out = take p t"
      then have "out = take p t @ [] \<and> (\<forall>x\<in>set []. is_space x)" by simp
      then show ?thesis by blast
    next
      assume "out = take p t @ [newline]"
      then have "out = take p t @ [newline] \<and> (\<forall>x\<in>set [newline]. is_space x)" using sp by simp
      then show ?thesis by blast
    qed
  qed
qed

lemma inline_stage_shape: "\<exists>q ws. inline_stage t = take q t @ ws \<and> (\<forall>x\<in>set ws. is_space x)"
proof -
  let ?t1 = "re_sub inline_signature_pattern [] t"
  obtain q1 ws1 where 1: "?t1 = take q1 t @ ws1" "\<forall>x\<in>set ws1. is_space x"
    using trim_result_shape [OF re_sub_trailing [OF trailing_inline ms_inline_nonempty_iff]]
    by blast
  obtain q2 ws2 where 2: "re_sub inline_signature_pattern2 [] ?t1 = take q2 ?t1 @ ws2"
    "\<forall>x\<in>set ws2. is_space x"
    using trim_result_shape [OF re_sub_trailing [OF trailing_inline2 ms_inline2_nonempty_iff]]
    by blast
  have "take q2 ?t1 = take (min q2 q1) t @ take (q2 - length (take q1 t)) ws1"
    unfolding 1(1) by (simp add: take_take min.commute)
  then have "inline_stage t = take (min q2 q1) t @ (take (q2 - length (take q1 t)) ws1 @ ws2)"
    using 2(1) by (simp add: inline_stage_def)
  moreover have "\<forall>x\<in>set (take (q2 - length (take q1 t)) ws1 @ ws2). is_space x"
    using 1(2) 2(2) by (auto dest: in_set_takeD)
  ultimately show ?thesis by blast
qed

lemma rstrip_inline_stage_hd:
  assumes "trimmed t"
  shows "lstrip (rstrip (inline_stage t)) = rstrip (inline_stage t)"
proof -
  obtain q ws where s: "inline_stage t = take q t @ ws" "\<forall>x\<in>set ws. is_space x"
    using inline_stage_shape by blast
  let ?r = "rstrip (take q t)"
  have r: "rstrip (inline_stage t) = ?r" using s by (simp add: rstrip_append_spaces)
  show ?thesis
  proof (cases "?r = []")
    case True
    then show ?thesis using r by (simp add: lstrip_def)
  next
    case False
    obtain b where b: "take q t = ?r @ b" using rstrip_prefix by blast
    then have "t = ?r @ (b @ drop q t)" by (metis append_assoc append_take_drop_id)
    then have "hd t = hd ?r" and "t \<noteq> []" using False by (metis hd_append2, auto)
    then have "\<not> is_space (hd ?r)" using assms by (simp add: trimmed_def)
    then show ?thesis using r by (simp add: lstrip_id)
  qed
qed

lemma sanitize_content_formula:
  "sanitize_content x =
     (let r = rstrip (inline_stage (line_stage (redact_emails x)))
      in if r = [] \<or> one_of ''.!?'' (last r) then r else r @ ''.'')"
proof -
  let ?r = "rstrip (inline_stage (line_stage (redact_emails x)))"
  have "trimmed (line_stage (redact_emails x))"
    unfolding line_stage_def by (rule trimmed_strip)
  then have "lstrip ?r = ?r" by (rule rstrip_inline_stage_hd)
  then show ?thesis using conjunct1 [OF sanitize_content_shape [of x]] by (auto simp: Let_def)
qed

text \<open>
  Claim C7. The sanitizer is total. Its output is the text left by signature removal
  without its trailing whitespace, with a full stop appended exactly when that text is
  non-empty and does not end in a full stop, an exclamation mark or a question mark. The
  output is trimmed: it is empty, or neither its first nor its last character is
  whitespace. A non-empty output ends in one of the three marks.
\<close>

theorem sanitize_content_total_trimmed:
  "sanitize_content x =
     (let r = rstrip (inline_stage (line_stage (redact_emails x)))
      in if r = [] \<or> one_of ''.!?'' (last r) then r else r @ ''.'') \<and>
   trimmed (sanitize_content x) \<and>
   (sanitize_content x \<noteq> [] \<longrightarrow> one_of ''.!?'' (last (sanitize_content x)))"
proof -
  have "trimmed (sanitize_content x)"
    unfolding sanitize_content_def by (rule trimmed_strip)
  then show ?thesis
    using sanitize_content_formula [of x] conjunct2 [OF conjunct2 [OF sanitize_content_shape [of x]]]
    by (intro conjI) (assumption, simp_all)
qed

theorem sanitize_content_total_trimmed_witness:
  "sanitize_content ''  Contact me at jane.doe@example.com for details  '' =
     ''Contact me at [redacted-email] for details.'' \<and>
   \<not> is_space (hd (sanitize_content ''  Contact me at jane.doe@example.com for details  '')) \<and>
   \<not> is_space (last (sanitize_content ''  Contact me at jane.doe@example.com for details  '')) \<and>
   one_of ''.!?'' (last (sanitize_content ''  Contact me at jane.doe@example.com for details  ''))"
proof -
  let ?x = "''  Contact me at jane.doe@example.com for details  ''"
  have v: "sanitize_content ?x = ''Contact me at [redacted-email] for details.''"
    by code_simp
  then have ne: "sanitize_content ?x \<noteq> []" by simp
  note th = sanitize_content_total_trimmed [of ?x]
  have t: "trimmed (sanitize_content ?x)" by (rule conjunct1 [OF conjunct2 [OF th]])
  have h: "\<not> is_space (hd (sanitize_content ?x))" and l: "\<not> is_space (last (sanitize_content ?x))"
    using t ne by (simp_all add: trimmed_def)
  show ?thesis
    by (intro conjI v h l mp [OF conjunct2 [OF conjunct2 [OF th]] ne])
qed

lemma trim_result_none: "cue_positions cue t = [] \<Longrightarrow> trim_result cue t out \<Longrightarrow> out = t"
  by (simp add: trim_result_def)

lemma rstrip_strip: "rstrip (strip s) = strip s"
  using trimmed_strip [of s] by (auto simp: trimmed_def rstrip_id)

end
